theory Spec2Isabelle
  imports Main "HOL-Library.Word"
begin

section \<open>Data model\<close>

text \<open>
  The development follows \<^verbatim>\<open>lib/dos2unixEventEmitter.js\<close>: the classifier
  \<^verbatim>\<open>determineProcessingStatusOfFile\<close>, the rewriter
  \<^verbatim>\<open>convertFileFromDosToUnix\<close> and the event-emitting pipeline
  \<^verbatim>\<open>Dos2UnixConverter.prototype.process\<close>.
\<close>

type_synonym byte = "8 word"

text \<open>The strings \<^verbatim>\<open>'good'\<close>, \<^verbatim>\<open>'bad'\<close>, \<^verbatim>\<open>'binary'\<close> and \<^verbatim>\<open>'error'\<close> held by \<^verbatim>\<open>status\<close>.\<close>

datatype status = Good | Bad | Binary | Error

text \<open>The byte-order-mark variants that BOM detection can report.\<close>

datatype bom = NoBom | UTF8 | UTF16LE | UTF16BE | UTF32LE | UTF32BE

text \<open>
  The module \<^verbatim>\<open>./util/encoding\<close> is required by the source file but is not part of it.
  Its functions are the fields of a record, so that the classifier and the rewriter are
  defined, and most properties proved, for every implementation of the module. The
  variant argument is optional: \<open>None\<close> is a call that leaves the argument out (or
  passes \<^verbatim>\<open>undefined\<close>), as line 130 of the source does.
\<close>

record encoder =
  detectBomFromBuffer :: "byte list \<Rightarrow> bom"
  getBytesPerBom :: "bom option \<Rightarrow> nat"
  getBytesPerControlChar :: "bom option \<Rightarrow> nat"
  isByteSequenceCR :: "byte list \<Rightarrow> bom option \<Rightarrow> bool"
  isByteSequenceLF :: "byte list \<Rightarrow> bom option \<Rightarrow> bool"
  doesByteSequenceSuggestBinary :: "byte list \<Rightarrow> bom option \<Rightarrow> bool"

text \<open>
  A file as the two operations see it: whether it can be opened and read, its bytes,
  and whether closing the reader reports an error.
\<close>

record diskFile =
  readable :: bool
  content :: "byte list"
  closeFails :: bool

datatype ioError = IOError

text \<open>
  Modelled from the spec: \<^verbatim>\<open>encoder.detectBom\<close>, absent from the sources. It applies
  the matching of \<^verbatim>\<open>detectBomFromBuffer\<close> to the leading bytes of the file (four, as
  the rewriter passes) and fails with an I/O error if the file cannot be opened.
\<close>

definition detectBom :: "encoder \<Rightarrow> diskFile \<Rightarrow> ioError + bom" where
  "detectBom e f =
     (if readable f then Inr (detectBomFromBuffer e (take 4 (content f))) else Inl IOError)"

subsection \<open>The reader\<close>

text \<open>
  \<^verbatim>\<open>BinaryReader\<close> of the external package \<^verbatim>\<open>buffered-reader\<close>. \<^verbatim>\<open>read(n, cb)\<close>
  hands the callback an error when the file cannot be opened or read, when the file has
  no bytes at all (\<^verbatim>\<open>EMPTY_FILE\<close>) and when \<open>n\<close> is less than 1
  (\<^verbatim>\<open>INVALID_READ_BYTES\<close>). Otherwise it hands over the next \<open>n\<close> bytes from the
  cursor (fewer at the end of the file, none after it) and moves the cursor past them;
  \<^verbatim>\<open>bytesRead\<close> is the length of the buffer. \<^verbatim>\<open>isOffsetOutOfWindow()\<close> holds once
  the cursor has passed the last byte.
\<close>

datatype readResult = ReadError | ReadOk "byte list"

definition reader_read :: "diskFile \<Rightarrow> nat \<Rightarrow> nat \<Rightarrow> readResult" where
  "reader_read f offset n =
     (if \<not> readable f then ReadError
      else if content f = [] then ReadError
      else if n < 1 then ReadError
      else ReadOk (take n (drop offset (content f))))"

definition isOffsetOutOfWindow :: "diskFile \<Rightarrow> nat \<Rightarrow> bool" where
  "isOffsetOutOfWindow f offset = (length (content f) \<le> offset)"

definition reader_close :: "diskFile \<Rightarrow> ioError option" where
  "reader_close f = (if closeFails f then Some IOError else None)"

section \<open>The classifier\<close>

text \<open>The messages written with \<^verbatim>\<open>console.error\<close>.\<close>

datatype diagnostic = ReadFailed | WrongByteCount | BomUnreadable | CloseFailed

text \<open>
  What one classification leaves behind: the status passed to \<^verbatim>\<open>done\<close>
  (\<open>None\<close> when \<^verbatim>\<open>done\<close> is never called), the messages logged and the position of
  the reader's cursor when the scan stopped.
\<close>

record classification =
  outcome :: "status option"
  logged :: "diagnostic list"
  cursor :: nat

text \<open>
  \<^verbatim>\<open>reader.read(bytesPerControlChar, readCallback)\<close>, lines 36 to 82: the call together
  with the callback it triggers. The callback reads again until it calls \<^verbatim>\<open>done\<close>.
  When \<^verbatim>\<open>bytesRead\<close> is 0, which it is at the end of a file that has bytes, no branch
  of the callback is taken: nothing more is read and \<^verbatim>\<open>done\<close> is not called. The
  reader refuses a width of 0 with an error.
\<close>

function readCallback ::
  "encoder \<Rightarrow> bom option \<Rightarrow> nat \<Rightarrow> diskFile \<Rightarrow> nat \<Rightarrow> bool \<Rightarrow> bool \<Rightarrow> classification" where
  "readCallback e bom bytesPerControlChar f offset lastByteSequenceWasCR needsFixing =
     (case reader_read f offset bytesPerControlChar of
        ReadError \<Rightarrow> \<lparr>outcome = Some Error, logged = [ReadFailed], cursor = offset\<rparr>
      | ReadOk buffer \<Rightarrow>
          (let bytesRead = length buffer; offset' = offset + bytesRead in
           if bytesRead = bytesPerControlChar then
             if doesByteSequenceSuggestBinary e buffer bom then
               \<lparr>outcome = Some Binary, logged = [], cursor = offset'\<rparr>
             else
               (let lastCR' = isByteSequenceCR e buffer bom;
                    needsFixing' =
                      (if isByteSequenceCR e buffer bom then needsFixing
                       else if lastByteSequenceWasCR \<and> isByteSequenceLF e buffer bom then True
                       else needsFixing)
                in
                if isOffsetOutOfWindow f offset' then
                  (let status = (if needsFixing' then Bad else Good) in
                   case reader_close f of
                     Some errClosing \<Rightarrow>
                       \<lparr>outcome = Some status, logged = [CloseFailed], cursor = offset'\<rparr>
                   | None \<Rightarrow> \<lparr>outcome = Some status, logged = [], cursor = offset'\<rparr>)
                else readCallback e bom bytesPerControlChar f offset' lastCR' needsFixing')
           else if bytesRead > 0 then
             \<lparr>outcome = Some Error, logged = [WrongByteCount], cursor = offset'\<rparr>
           else \<lparr>outcome = None, logged = [], cursor = offset'\<rparr>))"
  by pat_completeness auto
termination
proof (relation "measure (\<lambda>(e, bom, w, f, offset, l, n). length (content f) - offset)")
  show "wf (measure (\<lambda>(e, bom, w, f, offset, l, n). length (content f) - offset))"
    by simp
next
  fix e :: encoder and bom :: "bom option" and bytesPerControlChar :: nat and f :: diskFile
    and offset :: nat and lastByteSequenceWasCR needsFixing :: bool
    and buffer :: "byte list" and bytesRead offset' :: nat and lastCR' needsFixing' :: bool
  assume r: "reader_read f offset bytesPerControlChar = ReadOk buffer"
    and n: "bytesRead = length buffer"
    and o: "offset' = offset + bytesRead"
    and full: "bytesRead = bytesPerControlChar"
    and inside: "\<not> isOffsetOutOfWindow f offset'"
  from r have nz: "bytesPerControlChar \<noteq> 0"
    by (simp add: reader_read_def split: if_splits)
  from inside have "offset' < length (content f)"
    by (simp add: isOffsetOutOfWindow_def)
  moreover from n full nz have "0 < bytesRead"
    by simp
  ultimately have "length (content f) - offset' < length (content f) - offset"
    using o by arith
  then show "((e, bom, bytesPerControlChar, f, offset', lastCR', needsFixing'),
         (e, bom, bytesPerControlChar, f, offset, lastByteSequenceWasCR, needsFixing))
        \<in> measure (\<lambda>(e, bom, w, f, offset, l, n). length (content f) - offset)"
    by simp
qed

text \<open>
  \<^verbatim>\<open>determineProcessingStatusOfFile\<close>, lines 26 to 104. The error of
  \<^verbatim>\<open>detectBom\<close> is not looked at; its \<^verbatim>\<open>bom\<close> is then undefined.
\<close>

definition determineProcessingStatusOfFile :: "encoder \<Rightarrow> diskFile \<Rightarrow> classification" where
  "determineProcessingStatusOfFile e f =
     (let bom = (case detectBom e f of Inl err \<Rightarrow> None | Inr b \<Rightarrow> Some b);
          bytesPerBom = getBytesPerBom e bom;
          bytesPerControlChar = getBytesPerControlChar e bom
      in
      if bytesPerBom > 0 then
        (case reader_read f 0 bytesPerBom of
           ReadError \<Rightarrow> \<lparr>outcome = Some Error, logged = [ReadFailed], cursor = 0\<rparr>
         | ReadOk buffer \<Rightarrow>
             if length buffer < bytesPerBom then
               \<lparr>outcome = Some Error, logged = [BomUnreadable], cursor = length buffer\<rparr>
             else readCallback e bom bytesPerControlChar f (length buffer) False False)
      else readCallback e bom bytesPerControlChar f 0 False False)"

section \<open>The rewriter\<close>

text \<open>
  \<^verbatim>\<open>buffer.slice(start, end)\<close> for indices that are not negative: the bytes from
  \<open>start\<close> up to, not including, \<open>end\<close>, cut at the end of the buffer, and no bytes if
  \<open>end\<close> is not beyond \<open>start\<close>.
\<close>

definition slice :: "byte list \<Rightarrow> nat \<Rightarrow> nat \<Rightarrow> byte list" where
  "slice buffer start end' = take (end' - start) (drop start buffer)"

text \<open>
  The write stream \<^verbatim>\<open>outFile\<close>, opened on the path of the file that was read, which
  empties the file: the bytes passed to \<^verbatim>\<open>write\<close> and \<^verbatim>\<open>end\<close> so far, which are the
  new content of the file, and whether \<^verbatim>\<open>end\<close> has been called. The stream itself is
  taken not to fail.
\<close>

record outFile =
  written :: "byte list"
  ended :: bool

text \<open>
  The loop of lines 128 to 149, from the iteration at index \<open>b\<close> on. A width of 0 never
  advances \<open>b\<close>: the loop does not return, which is \<open>None\<close>. The index
  \<open>b - bytesPerControlChar\<close> is only used after a window at that index has been seen, so
  the subtraction does not go below 0.
\<close>

function convertLoop ::
  "encoder \<Rightarrow> bom \<Rightarrow> nat \<Rightarrow> byte list \<Rightarrow> nat \<Rightarrow> bool \<Rightarrow> nat \<Rightarrow> outFile \<Rightarrow> outFile option" where
  "convertLoop e bom bytesPerControlChar buffer b lastByteSequenceWasCR lastWriteIndex out =
     (if b < length buffer then
        if bytesPerControlChar = 0 then None
        else
          (let byteSequence = slice buffer b (b + bytesPerControlChar) in
           if isByteSequenceCR e byteSequence None then
             convertLoop e bom bytesPerControlChar buffer (b + bytesPerControlChar)
               True lastWriteIndex out
           else if lastByteSequenceWasCR \<and> isByteSequenceLF e byteSequence (Some bom) then
             convertLoop e bom bytesPerControlChar buffer (b + bytesPerControlChar)
               False b
               (out\<lparr>written := written out
                        @ slice buffer lastWriteIndex (b - bytesPerControlChar)\<rparr>)
           else if b + bytesPerControlChar = length buffer then
             convertLoop e bom bytesPerControlChar buffer (b + bytesPerControlChar)
               False lastWriteIndex
               (out\<lparr>written := written out
                        @ slice buffer lastWriteIndex (b + bytesPerControlChar),
                    ended := True\<rparr>)
           else
             convertLoop e bom bytesPerControlChar buffer (b + bytesPerControlChar)
               False lastWriteIndex out)
      else Some out)"
  by pat_completeness auto
termination
  by (relation "measure (\<lambda>(e, bom, w, buffer, b, l, i, out). length buffer - b)") auto

text \<open>
  \<^verbatim>\<open>convertFileFromDosToUnix\<close>, lines 106 to 152. When the file cannot be read the
  error is logged and nothing is written.
\<close>

datatype rewrite = ReadFailure | NoReturn | Rewritten outFile

definition convertFileFromDosToUnix :: "encoder \<Rightarrow> diskFile \<Rightarrow> rewrite" where
  "convertFileFromDosToUnix e f =
     (if \<not> readable f then ReadFailure
      else
        (let buffer = content f;
             bom = detectBomFromBuffer e (slice buffer 0 4);
             bytesPerBom = getBytesPerBom e (Some bom);
             bytesPerControlChar = getBytesPerControlChar e (Some bom)
         in case convertLoop e bom bytesPerControlChar buffer bytesPerBom False 0
                   \<lparr>written = [], ended = False\<rparr> of
              None \<Rightarrow> NoReturn
            | Some out \<Rightarrow> Rewritten out))"

text \<open>The file after the rewrite: unchanged if it could not be read, else what was written.\<close>

definition fileAfterRewrite :: "encoder \<Rightarrow> diskFile \<Rightarrow> diskFile option" where
  "fileAfterRewrite e f =
     (case convertFileFromDosToUnix e f of
        ReadFailure \<Rightarrow> Some f
      | NoReturn \<Rightarrow> None
      | Rewritten out \<Rightarrow> Some (f\<lparr>content := written out\<rparr>))"

text \<open>Rewriting a file and classifying what the rewrite left behind.\<close>

definition reclassified :: "encoder \<Rightarrow> diskFile \<Rightarrow> status option" where
  "reclassified e f =
     (case fileAfterRewrite e f of
        None \<Rightarrow> None
      | Some f' \<Rightarrow> outcome (determineProcessingStatusOfFile e f'))"

section \<open>The encoding module\<close>

text \<open>
  The module \<^verbatim>\<open>./util/encoding\<close> is absent from the sources. The definitions of this
  section give one implementation of it, following the description of its functions in the
  spec.
\<close>

text \<open>
  Modelled from the spec: \<^verbatim>\<open>detectBomFromBuffer\<close>, absent from the sources. The
  leading bytes are matched against the known signatures, the longer ones first, so that
  the UTF-16 signature is not found inside the UTF-32 one; no match is \<open>NoBom\<close>.
\<close>

definition specDetectBomFromBuffer :: "byte list \<Rightarrow> bom" where
  "specDetectBomFromBuffer bytes =
     (if take 4 bytes = [0xFF, 0xFE, 0x00, 0x00] then UTF32LE
      else if take 4 bytes = [0x00, 0x00, 0xFE, 0xFF] then UTF32BE
      else if take 3 bytes = [0xEF, 0xBB, 0xBF] then UTF8
      else if take 2 bytes = [0xFF, 0xFE] then UTF16LE
      else if take 2 bytes = [0xFE, 0xFF] then UTF16BE
      else NoBom)"

text \<open>
  Modelled from the spec: the variant that a function of the absent module works with.
  The spec gives every function a variant; a call that passes none is read as a call with
  the variant of a file without BOM.
\<close>

fun variantOf :: "bom option \<Rightarrow> bom" where
  "variantOf None = NoBom"
| "variantOf (Some b) = b"

text \<open>
  Modelled from the spec: the table of \<^verbatim>\<open>getBytesPerBom\<close>, absent from the sources:
  the length of the BOM prefix to skip, which is the length of the signature.
\<close>

fun bytesPerBomOf :: "bom \<Rightarrow> nat" where
  "bytesPerBomOf NoBom = 0"
| "bytesPerBomOf UTF8 = 3"
| "bytesPerBomOf UTF16LE = 2"
| "bytesPerBomOf UTF16BE = 2"
| "bytesPerBomOf UTF32LE = 4"
| "bytesPerBomOf UTF32BE = 4"

text \<open>
  Modelled from the spec: the table of \<^verbatim>\<open>getBytesPerControlChar\<close>, absent from the
  sources: 1 byte without BOM and in UTF-8, 2 bytes in UTF-16, 4 bytes in UTF-32.
\<close>

fun bytesPerControlCharOf :: "bom \<Rightarrow> nat" where
  "bytesPerControlCharOf NoBom = 1"
| "bytesPerControlCharOf UTF8 = 1"
| "bytesPerControlCharOf UTF16LE = 2"
| "bytesPerControlCharOf UTF16BE = 2"
| "bytesPerControlCharOf UTF32LE = 4"
| "bytesPerControlCharOf UTF32BE = 4"

text \<open>
  Modelled from the spec: the representation of a character in an encoding, against which
  the absent tests \<^verbatim>\<open>isByteSequenceCR\<close> and \<^verbatim>\<open>isByteSequenceLF\<close> compare a unit:
  for UTF-16 LE, CR is \<^verbatim>\<open>0D 00\<close>.
\<close>

fun controlUnit :: "byte \<Rightarrow> bom \<Rightarrow> byte list" where
  "controlUnit c NoBom = [c]"
| "controlUnit c UTF8 = [c]"
| "controlUnit c UTF16LE = [c, 0x00]"
| "controlUnit c UTF16BE = [0x00, c]"
| "controlUnit c UTF32LE = [c, 0x00, 0x00, 0x00]"
| "controlUnit c UTF32BE = [0x00, 0x00, 0x00, c]"

text \<open>
  Modelled from the spec: the module \<^verbatim>\<open>./util/encoding\<close>, absent from the sources.
  CR and LF are the units that encode the two characters. For
  \<^verbatim>\<open>doesByteSequenceSuggestBinary\<close> the spec names no rule but proposes one: the unit
  whose bytes are all zero, the NUL character of the encoding.
\<close>

definition specEncoder :: encoder where
  "specEncoder =
     \<lparr>detectBomFromBuffer = specDetectBomFromBuffer,
      getBytesPerBom = (\<lambda>v. bytesPerBomOf (variantOf v)),
      getBytesPerControlChar = (\<lambda>v. bytesPerControlCharOf (variantOf v)),
      isByteSequenceCR = (\<lambda>bytes v. bytes = controlUnit 0x0D (variantOf v)),
      isByteSequenceLF = (\<lambda>bytes v. bytes = controlUnit 0x0A (variantOf v)),
      doesByteSequenceSuggestBinary = (\<lambda>bytes v. bytes = controlUnit 0x00 (variantOf v))\<rparr>"

text \<open>A readable file with the given bytes, whose reader closes without error.\<close>

definition fileOf :: "byte list \<Rightarrow> diskFile" where
  "fileOf bytes = \<lparr>readable = True, content = bytes, closeFails = False\<rparr>"

section \<open>The event-emitting pipeline\<close>

text \<open>The exceptions of the language that the pipeline can raise.\<close>

datatype jsError = ReferenceError | TypeError

text \<open>The name under which an event is emitted and the object passed to its listeners.\<close>

record d2uEvent =
  eventName :: string
  eventFile :: string
  eventStatus :: status
  eventMessage :: string

text \<open>
  The value of \<^verbatim>\<open>this\<close> inside a function: the converter object, or \<^verbatim>\<open>undefined\<close>.
  \<^verbatim>\<open>this.emit(...)\<close> on \<^verbatim>\<open>undefined\<close> raises a TypeError; on the converter it adds
  the event to those emitted so far.
\<close>

datatype thisValue = Undefined | Converter

definition emit :: "thisValue \<Rightarrow> d2uEvent \<Rightarrow> d2uEvent list \<Rightarrow> jsError + d2uEvent list" where
  "emit this ev trace =
     (case this of Undefined \<Rightarrow> Inl TypeError | Converter \<Rightarrow> Inr (trace @ [ev]))"

type_synonym fileInfo = "string \<times> status"

text \<open>
  The callback given to \<^verbatim>\<open>filter\<close>, lines 260 to 291: one event for the file, and
  whether the file is kept for fixing.
\<close>

definition filterCallback ::
  "thisValue \<Rightarrow> fileInfo \<Rightarrow> d2uEvent list \<Rightarrow> jsError + (d2uEvent list \<times> bool)" where
  "filterCallback this fileInfo trace =
     (let path = fst fileInfo; st = snd fileInfo;
          ev =
            (if st = Error then
               \<lparr>eventName = ''convert.error'', eventFile = path, eventStatus = st,
                eventMessage = ''Skipping file with errors during read''\<rparr>
             else if st = Binary then
               \<lparr>eventName = ''convert.skip'', eventFile = path, eventStatus = st,
                eventMessage = ''Skipping suspected binary file''\<rparr>
             else if st = Good then
               \<lparr>eventName = ''convert.skip'', eventFile = path, eventStatus = st,
                eventMessage = ''Skipping file that does not need fixing''\<rparr>
             else
               \<lparr>eventName = ''convert.start'', eventFile = path, eventStatus = st,
                eventMessage = ''File needs fixing''\<rparr>)
      in case emit this ev trace of
           Inl err \<Rightarrow> Inl err
         | Inr trace' \<Rightarrow> Inr (trace', st = Bad))"

text \<open>
  \<^verbatim>\<open>fileListWithSafetyInfo.filter(...).map(...)\<close>: the callback runs on each file in
  order; an exception ends the stage, and what was emitted before it stays emitted.
\<close>

fun filterStage ::
  "thisValue \<Rightarrow> fileInfo list \<Rightarrow> d2uEvent list \<Rightarrow> d2uEvent list \<times> (jsError + string list)" where
  "filterStage this [] trace = (trace, Inr [])"
| "filterStage this (fileInfo # rest) trace =
     (case filterCallback this fileInfo trace of
        Inl err \<Rightarrow> (trace, Inl err)
      | Inr (trace', keep) \<Rightarrow>
          (case filterStage this rest trace' of
             (trace'', Inl err) \<Rightarrow> (trace'', Inl err)
           | (trace'', Inr paths) \<Rightarrow>
               (trace'', Inr (if keep then fst fileInfo # paths else paths))))"

text \<open>
  One call of \<^verbatim>\<open>process\<close>, lines 242 to 311, on the files the glob resolved to.
  \<^item> The statement that builds the promise chain evaluates the argument of
    \<^verbatim>\<open>.fail(done)\<close>. No \<^verbatim>\<open>done\<close> is in scope, so the call of \<^verbatim>\<open>process\<close> raises a
    ReferenceError, after the \<^verbatim>\<open>then\<close> callbacks before it have been registered.
  \<^item> Those callbacks run once every classification has called back; a classification
    that never does leaves them waiting.
  \<^item> The \<^verbatim>\<open>filter\<close> callback is a plain function of a strict-mode module, called by
    \<^verbatim>\<open>filter\<close> without a \<^verbatim>\<open>this\<close> argument: its \<^verbatim>\<open>this\<close> is \<^verbatim>\<open>undefined\<close>.
  \<^item> The later stages emit nothing: the source has no call that emits \<^verbatim>\<open>end\<close> or
    \<^verbatim>\<open>error\<close>.
\<close>

record processRun =
  raised :: "jsError option"
  emitted :: "d2uEvent list"

definition process :: "encoder \<Rightarrow> (string \<times> diskFile) list \<Rightarrow> processRun" where
  "process e fileList =
     \<lparr>raised = Some ReferenceError,
      emitted =
        (case those (map (\<lambda>(filePath, f). outcome (determineProcessingStatusOfFile e f))
                       fileList) of
           None \<Rightarrow> []
         | Some safetyList \<Rightarrow>
             fst (filterStage Undefined (zip (map fst fileList) safetyList) []))\<rparr>"

section \<open>Control units and line endings of a content\<close>

text \<open>
  The content after the BOM cut into control units of the given width, in order; the last
  one is shorter when the length is not a multiple of the width.
\<close>

function controlUnits :: "nat \<Rightarrow> 'a list \<Rightarrow> 'a list list" where
  "controlUnits n bytes =
     (if n = 0 \<or> bytes = [] then [] else take n bytes # controlUnits n (drop n bytes))"
  by pat_completeness auto
termination
  by (relation "measure (\<lambda>(n, bytes). length bytes)") auto

text \<open>Some unit is a CR and the unit right after it is an LF.\<close>

fun hasCRLF :: "('u \<Rightarrow> bool) \<Rightarrow> ('u \<Rightarrow> bool) \<Rightarrow> 'u list \<Rightarrow> bool" where
  "hasCRLF cr lf (u # v # us) = ((cr u \<and> lf v) \<or> hasCRLF cr lf (v # us))"
| "hasCRLF cr lf us = False"

text \<open>Some unit is a CR, the next one too, and the one after that is an LF.\<close>

fun hasCRCRLF :: "('u \<Rightarrow> bool) \<Rightarrow> ('u \<Rightarrow> bool) \<Rightarrow> 'u list \<Rightarrow> bool" where
  "hasCRCRLF cr lf (t # u # v # us) = ((cr t \<and> cr u \<and> lf v) \<or> hasCRCRLF cr lf (u # v # us))"
| "hasCRCRLF cr lf us = False"

text \<open>The units without the CRs that an LF follows at once.\<close>

fun dropCRs :: "('u \<Rightarrow> bool) \<Rightarrow> ('u \<Rightarrow> bool) \<Rightarrow> 'u list \<Rightarrow> 'u list" where
  "dropCRs cr lf (u # v # us) =
     (if cr u \<and> lf v then dropCRs cr lf (v # us) else u # dropCRs cr lf (v # us))"
| "dropCRs cr lf us = us"

text \<open>
  The last unit is neither a CR nor an LF that follows a CR: the units on which the loop
  of the rewriter reaches its call of \<^verbatim>\<open>end\<close>.
\<close>

fun endsOrdinary :: "('u \<Rightarrow> bool) \<Rightarrow> ('u \<Rightarrow> bool) \<Rightarrow> 'u list \<Rightarrow> bool" where
  "endsOrdinary cr lf [] = False"
| "endsOrdinary cr lf [u] = (\<not> cr u)"
| "endsOrdinary cr lf [u, v] = (\<not> cr v \<and> \<not> (cr u \<and> lf v))"
| "endsOrdinary cr lf (u # v # w # us) = endsOrdinary cr lf (v # w # us)"

text \<open>
  The two flags of the classifier, \<^verbatim>\<open>lastByteSequenceWasCR\<close> and \<^verbatim>\<open>needsFixing\<close>,
  after the given units have gone through the callback.
\<close>

fun scanUnits :: "('u \<Rightarrow> bool) \<Rightarrow> ('u \<Rightarrow> bool) \<Rightarrow> bool \<times> bool \<Rightarrow> 'u list \<Rightarrow> bool \<times> bool" where
  "scanUnits cr lf flags [] = flags"
| "scanUnits cr lf (lastCR, needsFixing) (u # us) =
     scanUnits cr lf
       (cr u, if cr u then needsFixing else if lastCR \<and> lf u then True else needsFixing) us"

text \<open>
  The write stream after the loop of the rewriter has gone through the given units, from
  the bytes \<open>pending\<close> that lie between \<^verbatim>\<open>lastWriteIndex\<close> and the current index.
\<close>

fun writeUnits ::
  "('a list \<Rightarrow> bool) \<Rightarrow> ('a list \<Rightarrow> bool) \<Rightarrow> nat \<Rightarrow> bool \<Rightarrow> 'a list \<Rightarrow> 'a list \<times> bool
     \<Rightarrow> 'a list list \<Rightarrow> 'a list \<times> bool" where
  "writeUnits cr lf n lastCR pending out [] = out"
| "writeUnits cr lf n lastCR pending (sent, fin) (u # us) =
     (if cr u then writeUnits cr lf n True (pending @ u) (sent, fin) us
      else if lastCR \<and> lf u then
        writeUnits cr lf n False u (sent @ take (length pending - n) pending, fin) us
      else if us = [] \<and> length u = n then
        writeUnits cr lf n False (pending @ u) (sent @ pending @ u, True) us
      else writeUnits cr lf n False (pending @ u) (sent, fin) us)"

text \<open>The content of a file after its BOM, and the tests of the encoding for its variant.\<close>

definition bomOf :: "encoder \<Rightarrow> diskFile \<Rightarrow> bom" where
  "bomOf e f = detectBomFromBuffer e (take 4 (content f))"

definition payload :: "encoder \<Rightarrow> diskFile \<Rightarrow> byte list" where
  "payload e f = drop (getBytesPerBom e (Some (bomOf e f))) (content f)"

definition unitsOf :: "encoder \<Rightarrow> diskFile \<Rightarrow> byte list list" where
  "unitsOf e f = controlUnits (getBytesPerControlChar e (Some (bomOf e f))) (payload e f)"

text \<open>The tests of the encoding module as predicates on units, for a fixed variant argument.\<close>

abbreviation unitIsCR :: "encoder \<Rightarrow> bom option \<Rightarrow> byte list \<Rightarrow> bool" where
  "unitIsCR e v \<equiv> (\<lambda>u. isByteSequenceCR e u v)"

abbreviation unitIsLF :: "encoder \<Rightarrow> bom option \<Rightarrow> byte list \<Rightarrow> bool" where
  "unitIsLF e v \<equiv> (\<lambda>u. isByteSequenceLF e u v)"

abbreviation unitIsBinary :: "encoder \<Rightarrow> bom option \<Rightarrow> byte list \<Rightarrow> bool" where
  "unitIsBinary e v \<equiv> (\<lambda>u. doesByteSequenceSuggestBinary e u v)"

section \<open>Control units\<close>

declare readCallback.simps [simp del] convertLoop.simps [simp del] controlUnits.simps [simp del]

lemma controlUnits_Nil [simp]: "controlUnits n [] = []"
  by (subst controlUnits.simps) simp

lemma controlUnits_zero [simp]: "controlUnits 0 bytes = []"
  by (subst controlUnits.simps) simp

lemma controlUnits_step:
  "0 < n \<Longrightarrow> bytes \<noteq> [] \<Longrightarrow> controlUnits n bytes = take n bytes # controlUnits n (drop n bytes)"
  by (subst controlUnits.simps) simp

lemma controlUnits_append:
  "0 < n \<Longrightarrow> length u = n \<Longrightarrow> controlUnits n (u @ bytes) = u # controlUnits n bytes"
  by (subst controlUnits.simps) auto

lemma controlUnits_concat:
  "0 < n \<Longrightarrow> \<forall>u\<in>set us. length u = n \<Longrightarrow> controlUnits n (concat us) = us"
  by (induction us) (simp_all add: controlUnits_append)

lemma concat_controlUnits: "0 < n \<Longrightarrow> concat (controlUnits n bytes) = bytes"
proof (induction n bytes rule: controlUnits.induct)
  case (1 n bytes)
  show ?case
  proof (cases "bytes = []")
    case True
    then show ?thesis by simp
  next
    case False
    with 1 have "concat (controlUnits n (drop n bytes)) = drop n bytes"
      by simp
    with 1(2) False show ?thesis
      by (simp add: controlUnits_step)
  qed
qed

lemma length_controlUnits_dvd:
  "0 < n \<Longrightarrow> n dvd length bytes \<Longrightarrow> \<forall>u\<in>set (controlUnits n bytes). length u = n"
proof (induction n bytes rule: controlUnits.induct)
  case (1 n bytes)
  show ?case
  proof (cases "bytes = []")
    case True
    then show ?thesis by simp
  next
    case False
    then have "0 < length bytes" by simp
    with 1(3) have le: "n \<le> length bytes"
      by (rule dvd_imp_le)
    have "n dvd length bytes - n"
      by (rule dvd_diff_nat [OF 1(3) dvd_refl])
    then have len: "n dvd length (drop n bytes)"
      by simp
    have nz: "\<not> (n = 0 \<or> bytes = [])"
      using 1(2) False by simp
    have "\<forall>u\<in>set (controlUnits n (drop n bytes)). length u = n"
      by (rule 1(1) [OF nz 1(2) len])
    moreover have "length (take n bytes) = n"
      using le by simp
    moreover have "controlUnits n bytes = take n bytes # controlUnits n (drop n bytes)"
      using 1(2) False by (rule controlUnits_step)
    ultimately show ?thesis
      by (simp del: length_take)
  qed
qed

section \<open>One read of the classifier\<close>

lemma reader_read_ok:
  "readable f \<Longrightarrow> content f \<noteq> [] \<Longrightarrow> 0 < n \<Longrightarrow>
   reader_read f offset n = ReadOk (take n (drop offset (content f)))"
  by (simp add: reader_read_def)

lemma reader_read_error:
  "\<not> (readable f \<and> content f \<noteq> [] \<and> 0 < n) \<Longrightarrow> reader_read f offset n = ReadError"
  by (auto simp: reader_read_def)

lemma drop_nonempty: "drop k bytes = u @ rest \<Longrightarrow> u \<noteq> [] \<Longrightarrow> bytes \<noteq> []"
  by auto

lemma readCallback_read_error:
  "\<not> (readable f \<and> content f \<noteq> [] \<and> 0 < n) \<Longrightarrow>
   readCallback e bom n f offset lastCR needsFixing
     = \<lparr>outcome = Some Error, logged = [ReadFailed], cursor = offset\<rparr>"
  by (subst readCallback.simps) (simp add: reader_read_error)

lemma readCallback_unreadable:
  "\<not> readable f \<Longrightarrow>
   readCallback e bom n f offset lastCR needsFixing
     = \<lparr>outcome = Some Error, logged = [ReadFailed], cursor = offset\<rparr>"
  by (rule readCallback_read_error) simp

lemma readCallback_eof:
  "readable f \<Longrightarrow> content f \<noteq> [] \<Longrightarrow> 0 < n \<Longrightarrow> drop offset (content f) = [] \<Longrightarrow>
   readCallback e bom n f offset lastCR needsFixing
     = \<lparr>outcome = None, logged = [], cursor = offset\<rparr>"
  by (subst readCallback.simps) (simp add: reader_read_ok)

lemma readCallback_partial:
  assumes "readable f" and "drop offset (content f) = u" and "0 < length u" and "length u < n"
  shows "readCallback e bom n f offset lastCR needsFixing
     = \<lparr>outcome = Some Error, logged = [WrongByteCount], cursor = offset + length u\<rparr>"
proof -
  have "content f \<noteq> []"
    using assms(2,3) by auto
  moreover have "0 < n"
    using assms(3,4) by simp
  ultimately have "reader_read f offset n = ReadOk (take n (drop offset (content f)))"
    using assms(1) by (simp add: reader_read_ok)
  with assms show ?thesis
    by (subst readCallback.simps) simp
qed

lemma readCallback_binary:
  assumes "readable f" and "drop offset (content f) = u @ rest" and "length u = n"
    and "doesByteSequenceSuggestBinary e u bom" and "0 < n"
  shows "readCallback e bom n f offset lastCR needsFixing
     = \<lparr>outcome = Some Binary, logged = [], cursor = offset + n\<rparr>"
proof -
  have "u \<noteq> []"
    using assms(3,5) by auto
  with assms(2) have "content f \<noteq> []"
    by (rule drop_nonempty)
  then have "reader_read f offset n = ReadOk (take n (drop offset (content f)))"
    using assms(1,5) by (simp add: reader_read_ok)
  with assms show ?thesis
    by (subst readCallback.simps) simp
qed

lemma readCallback_last:
  assumes "readable f" and "drop offset (content f) = u" and "length u = n" and "0 < n"
    and "\<not> doesByteSequenceSuggestBinary e u bom"
  shows "readCallback e bom n f offset lastCR needsFixing
     = \<lparr>outcome = Some (if snd (scanUnits (\<lambda>u. isByteSequenceCR e u bom)
                                    (\<lambda>u. isByteSequenceLF e u bom) (lastCR, needsFixing) [u])
                          then Bad else Good),
        logged = (if closeFails f then [CloseFailed] else []),
        cursor = offset + n\<rparr>"
proof -
  have "length (drop offset (content f)) = n"
    using assms(2,3) by simp
  then have "length (content f) \<le> offset + n"
    by simp
  then have "isOffsetOutOfWindow f (offset + n)"
    by (simp add: isOffsetOutOfWindow_def)
  moreover have "content f \<noteq> []"
    using assms(2,3,4) by auto
  then have "reader_read f offset n = ReadOk (take n (drop offset (content f)))"
    using assms(1,4) by (simp add: reader_read_ok)
  ultimately show ?thesis
    using assms by (subst readCallback.simps) (simp add: reader_close_def)
qed

lemma readCallback_step:
  assumes "readable f" and "drop offset (content f) = u @ rest" and "length u = n" and "0 < n"
    and "rest \<noteq> []"
    and "\<not> doesByteSequenceSuggestBinary e u bom"
  shows "readCallback e bom n f offset lastCR needsFixing
     = readCallback e bom n f (offset + n)
         (fst (scanUnits (\<lambda>u. isByteSequenceCR e u bom)
                 (\<lambda>u. isByteSequenceLF e u bom) (lastCR, needsFixing) [u]))
         (snd (scanUnits (\<lambda>u. isByteSequenceCR e u bom)
                 (\<lambda>u. isByteSequenceLF e u bom) (lastCR, needsFixing) [u]))"
proof -
  from assms(5) obtain r rs where "rest = r # rs"
    by (cases rest) auto
  with assms(2,3) have "length (drop offset (content f)) = n + Suc (length rs)"
    by simp
  then have "offset + n < length (content f)"
    by simp
  then have "\<not> isOffsetOutOfWindow f (offset + n)"
    by (simp add: isOffsetOutOfWindow_def)
  moreover have "u \<noteq> []"
    using assms(3,4) by auto
  with assms(2) have "content f \<noteq> []"
    by (rule drop_nonempty)
  then have "reader_read f offset n = ReadOk (take n (drop offset (content f)))"
    using assms(1,4) by (simp add: reader_read_ok)
  ultimately show ?thesis
    using assms by (subst readCallback.simps) simp
qed

lemma readCallback_units:
  assumes "readable f" and "0 < n" and "rest \<noteq> []"
    and "\<forall>u\<in>set us. length u = n \<and> \<not> doesByteSequenceSuggestBinary e u bom"
    and "drop offset (content f) = concat us @ rest"
  shows "readCallback e bom n f offset lastCR needsFixing
     = readCallback e bom n f (offset + length (concat us))
         (fst (scanUnits (unitIsCR e bom) (unitIsLF e bom) (lastCR, needsFixing) us))
         (snd (scanUnits (unitIsCR e bom) (unitIsLF e bom) (lastCR, needsFixing) us))"
  using assms(4,5)
proof (induction us arbitrary: offset lastCR needsFixing)
  case Nil
  then show ?case by simp
next
  case (Cons u us)
  let ?flags = "scanUnits (unitIsCR e bom) (unitIsLF e bom) (lastCR, needsFixing) [u]"
  have u: "length u = n" "\<not> doesByteSequenceSuggestBinary e u bom"
    using Cons.prems(1) by simp_all
  have split: "drop offset (content f) = u @ (concat us @ rest)"
    using Cons.prems(2) by simp
  have nonempty: "concat us @ rest \<noteq> []"
    using assms(3) by simp
  have step: "readCallback e bom n f offset lastCR needsFixing
      = readCallback e bom n f (offset + n) (fst ?flags) (snd ?flags)"
    by (rule readCallback_step [OF assms(1) split u(1) assms(2) nonempty u(2)])
  have "drop (offset + n) (content f) = drop n (drop offset (content f))"
    by (simp add: add.commute)
  also have "\<dots> = concat us @ rest"
    using split u(1) by simp
  finally have next_drop: "drop (offset + n) (content f) = concat us @ rest" .
  have rest_units: "\<forall>u\<in>set us. length u = n \<and> \<not> doesByteSequenceSuggestBinary e u bom"
    using Cons.prems(1) by simp
  have "readCallback e bom n f (offset + n) (fst ?flags) (snd ?flags)
      = readCallback e bom n f (offset + n + length (concat us))
          (fst (scanUnits (unitIsCR e bom) (unitIsLF e bom) (fst ?flags, snd ?flags) us))
          (snd (scanUnits (unitIsCR e bom) (unitIsLF e bom) (fst ?flags, snd ?flags) us))"
    by (rule Cons.IH [OF rest_units next_drop])
  with step u(1) show ?case
    by (simp add: add.assoc)
qed

section \<open>A whole scan\<close>

lemma scanUnits_append:
  "scanUnits cr lf flags (us @ vs) = scanUnits cr lf (scanUnits cr lf flags us) vs"
  by (induction us arbitrary: flags) (auto split: prod.splits)

lemma hasCRLF_Cons:
  "hasCRLF cr lf (u # us) = ((us \<noteq> [] \<and> cr u \<and> lf (hd us)) \<or> hasCRLF cr lf us)"
  by (cases us) auto

lemma scanUnits_needsFixing:
  assumes "\<forall>u. \<not> (cr u \<and> lf u)"
  shows "snd (scanUnits cr lf (lastCR, needsFixing) us)
     = (needsFixing \<or> (lastCR \<and> us \<noteq> [] \<and> lf (hd us)) \<or> hasCRLF cr lf us)"
proof (induction us arbitrary: lastCR needsFixing)
  case Nil
  show ?case by simp
next
  case (Cons u us)
  from assms have "\<not> (cr u \<and> lf u)" by blast
  then show ?case
    by (auto simp: Cons.IH hasCRLF_Cons)
qed

lemma hasCRLF_needs_CR: "hasCRLF cr lf us \<Longrightarrow> \<exists>u\<in>set (butlast us). cr u"
  by (induction cr lf us rule: hasCRLF.induct) auto

lemma classify_readable:
  assumes "readable f" and "getBytesPerBom e (Some (bomOf e f)) \<le> length (content f)"
  shows "determineProcessingStatusOfFile e f
     = readCallback e (Some (bomOf e f)) (getBytesPerControlChar e (Some (bomOf e f))) f
         (getBytesPerBom e (Some (bomOf e f))) False False"
proof (cases "getBytesPerBom e (Some (bomOf e f)) = 0")
  case True
  with assms(1) show ?thesis
    by (simp add: determineProcessingStatusOfFile_def detectBom_def bomOf_def Let_def)
next
  case False
  define k where "k = getBytesPerBom e (Some (bomOf e f))"
  have pos: "0 < k"
    using False by (simp add: k_def)
  have le: "k \<le> length (content f)"
    using assms(2) by (simp add: k_def)
  with pos have "content f \<noteq> []"
    by auto
  with assms(1) pos have rd: "reader_read f 0 k = ReadOk (take k (content f))"
    by (simp add: reader_read_ok)
  have len: "length (take k (content f)) = k"
    using le by simp
  have rd': "reader_read f 0 (getBytesPerBom e (Some (detectBomFromBuffer e (take 4 (content f)))))
      = ReadOk (take k (content f))"
    using rd by (simp add: k_def bomOf_def)
  have "determineProcessingStatusOfFile e f
      = readCallback e (Some (bomOf e f))
          (getBytesPerControlChar e (Some (bomOf e f))) f k False False"
    using assms(1) pos len
    by (simp add: determineProcessingStatusOfFile_def detectBom_def Let_def rd'
        del: length_take)
       (simp add: bomOf_def k_def)
  then show ?thesis
    by (simp add: k_def)
qed

lemma payload_nonempty:
  "payload e f \<noteq> [] \<Longrightarrow> getBytesPerBom e (Some (bomOf e f)) \<le> length (content f)"
  by (simp add: payload_def)

lemma classify_full_scan:
  assumes "readable f"
    and "0 < getBytesPerControlChar e (Some (bomOf e f))"
    and "payload e f = concat us" and "us \<noteq> []"
    and "\<forall>u\<in>set us. length u = getBytesPerControlChar e (Some (bomOf e f))
                    \<and> \<not> doesByteSequenceSuggestBinary e u (Some (bomOf e f))"
  shows "determineProcessingStatusOfFile e f
     = \<lparr>outcome = Some (if snd (scanUnits (unitIsCR e (Some (bomOf e f)))
                                    (unitIsLF e (Some (bomOf e f))) (False, False) us)
                          then Bad else Good),
        logged = (if closeFails f then [CloseFailed] else []),
        cursor = length (content f)\<rparr>"
proof -
  let ?v = "Some (bomOf e f)"
  let ?n = "getBytesPerControlChar e ?v"
  let ?b = "getBytesPerBom e ?v"
  let ?cr = "unitIsCR e ?v" and ?lf = "unitIsLF e ?v"
  from assms(4) obtain vs w where us: "us = vs @ [w]"
    by (cases us rule: rev_cases) auto
  have w: "length w = ?n" "\<not> doesByteSequenceSuggestBinary e w ?v"
    using assms(5) us by simp_all
  have vs: "\<forall>u\<in>set vs. length u = ?n \<and> \<not> doesByteSequenceSuggestBinary e u ?v"
    using assms(5) us by simp
  have "w \<noteq> []"
    using w(1) assms(2) by auto
  then have nonempty: "payload e f \<noteq> []"
    using assms(3) us by simp
  then have le: "?b \<le> length (content f)"
    by (rule payload_nonempty)
  have dropb: "drop ?b (content f) = concat vs @ w"
    using assms(3) us by (simp add: payload_def)
  let ?flags = "scanUnits ?cr ?lf (False, False) vs"
  have "determineProcessingStatusOfFile e f = readCallback e ?v ?n f ?b False False"
    by (rule classify_readable [OF assms(1) le])
  also have "\<dots> = readCallback e ?v ?n f (?b + length (concat vs)) (fst ?flags) (snd ?flags)"
    by (rule readCallback_units [OF assms(1) assms(2) \<open>w \<noteq> []\<close> vs dropb])
  also have "\<dots> = \<lparr>outcome = Some (if snd (scanUnits ?cr ?lf (fst ?flags, snd ?flags) [w])
                                   then Bad else Good),
        logged = (if closeFails f then [CloseFailed] else []),
        cursor = ?b + length (concat vs) + ?n\<rparr>"
  proof (rule readCallback_last [OF assms(1) _ w(1) assms(2) w(2)])
    have "drop (?b + length (concat vs)) (content f)
        = drop (length (concat vs)) (drop ?b (content f))"
      by (simp add: add.commute)
    then show "drop (?b + length (concat vs)) (content f) = w"
      using dropb by simp
  qed
  also have "scanUnits ?cr ?lf (fst ?flags, snd ?flags) [w] = scanUnits ?cr ?lf (False, False) us"
    by (simp add: us scanUnits_append)
  also have "?b + length (concat vs) + ?n = length (content f)"
  proof -
    have "length (drop ?b (content f)) = length (concat vs) + ?n"
      using dropb w(1) by simp
    with le show ?thesis by simp
  qed
  finally show ?thesis .
qed

lemma readCallback_outcome:
  assumes "reader_read f offset n = ReadOk buffer"
  shows "outcome (readCallback e bom n f offset lastCR needsFixing)
     = (if length buffer = n then
          if doesByteSequenceSuggestBinary e buffer bom then Some Binary
          else if isOffsetOutOfWindow f (offset + length buffer) then
            Some (if (if isByteSequenceCR e buffer bom then needsFixing
                      else if lastCR \<and> isByteSequenceLF e buffer bom then True
                      else needsFixing) then Bad else Good)
          else outcome (readCallback e bom n f (offset + length buffer)
                 (isByteSequenceCR e buffer bom)
                 (if isByteSequenceCR e buffer bom then needsFixing
                  else if lastCR \<and> isByteSequenceLF e buffer bom then True
                  else needsFixing))
        else if length buffer > 0 then Some Error else None)"
  by (subst readCallback.simps)
     (simp add: assms Let_def reader_close_def split: option.split)

lemma readCallback_closeFails:
  "outcome (readCallback e bom n (f\<lparr>closeFails := c\<rparr>) offset lastCR needsFixing)
     = outcome (readCallback e bom n f offset lastCR needsFixing)"
proof (induction e bom n f offset lastCR needsFixing rule: readCallback.induct)
  case (1 e bom n f offset lastCR needsFixing)
  let ?g = "f\<lparr>closeFails := c\<rparr>"
  define buffer where "buffer = take n (drop offset (content f))"
  define offset' where "offset' = offset + length buffer"
  show ?case
  proof (cases "readable f \<and> content f \<noteq> [] \<and> 0 < n")
    case False
    then have "\<not> (readable ?g \<and> content ?g \<noteq> [] \<and> 0 < n)"
      by simp
    then have "readCallback e bom n ?g offset lastCR needsFixing
        = \<lparr>outcome = Some Error, logged = [ReadFailed], cursor = offset\<rparr>"
      by (rule readCallback_read_error)
    moreover have "readCallback e bom n f offset lastCR needsFixing
        = \<lparr>outcome = Some Error, logged = [ReadFailed], cursor = offset\<rparr>"
      using False by (rule readCallback_read_error)
    ultimately show ?thesis
      by simp
  next
    case True
    then have rd: "reader_read f offset n = ReadOk buffer"
      by (simp add: reader_read_ok buffer_def)
    have rd': "reader_read ?g offset n = ReadOk buffer"
      using True by (simp add: reader_read_ok buffer_def)
    have win: "isOffsetOutOfWindow ?g offset' = isOffsetOutOfWindow f offset'"
      by (simp add: isOffsetOutOfWindow_def)
    define l where "l = isByteSequenceCR e buffer bom"
    define nf where "nf = (if isByteSequenceCR e buffer bom then needsFixing
                 else if lastCR \<and> isByteSequenceLF e buffer bom then True else needsFixing)"
    have lhs: "outcome (readCallback e bom n ?g offset lastCR needsFixing)
        = (if length buffer = n then
             if doesByteSequenceSuggestBinary e buffer bom then Some Binary
             else if isOffsetOutOfWindow f offset' then Some (if nf then Bad else Good)
             else outcome (readCallback e bom n ?g offset' l nf)
           else if length buffer > 0 then Some Error else None)"
      using win by (simp only: readCallback_outcome [OF rd'] offset'_def l_def nf_def)
    have rhs: "outcome (readCallback e bom n f offset lastCR needsFixing)
        = (if length buffer = n then
             if doesByteSequenceSuggestBinary e buffer bom then Some Binary
             else if isOffsetOutOfWindow f offset' then Some (if nf then Bad else Good)
             else outcome (readCallback e bom n f offset' l nf)
           else if length buffer > 0 then Some Error else None)"
      by (simp only: readCallback_outcome [OF rd] offset'_def l_def nf_def)
    show ?thesis
    proof (cases "length buffer = n \<and> \<not> doesByteSequenceSuggestBinary e buffer bom
                  \<and> \<not> isOffsetOutOfWindow f offset'")
      case again: True
      have len: "length buffer = n" using again by simp
      have nb: "\<not> doesByteSequenceSuggestBinary e buffer bom" using again by simp
      have inside: "\<not> isOffsetOutOfWindow f offset'" using again by simp
      have IH: "outcome (readCallback e bom n ?g offset' l nf)
          = outcome (readCallback e bom n f offset' l nf)"
        by (rule 1 [OF rd refl offset'_def len nb l_def nf_def inside])
      show ?thesis
        unfolding lhs rhs IH ..
    next
      case stop: False
      then consider "length buffer \<noteq> n"
        | "length buffer = n" "doesByteSequenceSuggestBinary e buffer bom"
        | "length buffer = n" "\<not> doesByteSequenceSuggestBinary e buffer bom"
          "isOffsetOutOfWindow f offset'"
        by blast
      then show ?thesis
        unfolding lhs rhs by cases simp_all
    qed
  qed
qed

lemma classify_closeFails:
  "outcome (determineProcessingStatusOfFile e (f\<lparr>closeFails := c\<rparr>))
     = outcome (determineProcessingStatusOfFile e f)"
  by (simp add: determineProcessingStatusOfFile_def detectBom_def reader_read_def Let_def
      readCallback_closeFails)

lemma classify_unreadable:
  "\<not> readable f \<Longrightarrow>
   determineProcessingStatusOfFile e f
     = \<lparr>outcome = Some Error, logged = [ReadFailed], cursor = 0\<rparr>"
  by (simp add: determineProcessingStatusOfFile_def detectBom_def reader_read_def Let_def
      readCallback_unreadable)

lemma controlUnits_prefix:
  assumes "0 < n"
  shows "controlUnits n bytes = us @ w # vs \<Longrightarrow>
         (\<forall>u\<in>set us. length u = n) \<and> bytes = concat us @ w @ concat vs"
proof (induction us arbitrary: bytes)
  case Nil
  have "concat (controlUnits n bytes) = bytes"
    using assms by (rule concat_controlUnits)
  with Nil show ?case by simp
next
  case (Cons u us)
  have ne: "bytes \<noteq> []"
    using Cons.prems by auto
  have step: "controlUnits n bytes = take n bytes # controlUnits n (drop n bytes)"
    using assms ne by (rule controlUnits_step)
  with Cons.prems have u: "u = take n bytes"
    and tl: "controlUnits n (drop n bytes) = us @ w # vs"
    by simp_all
  from tl have "drop n bytes \<noteq> []"
    by auto
  then have len: "length u = n"
    using u by simp
  from Cons.IH [OF tl] have "(\<forall>u\<in>set us. length u = n)"
    and rest: "drop n bytes = concat us @ w @ concat vs"
    by simp_all
  moreover have "bytes = take n bytes @ drop n bytes"
    by simp
  ultimately show ?case
    using u len by (metis concat.simps(2) append.assoc set_ConsD)
qed

lemma controlUnits_nonempty: "0 < n \<Longrightarrow> bytes \<noteq> [] \<Longrightarrow> controlUnits n bytes \<noteq> []"
  by (simp add: controlUnits_step)

lemma length_controlUnits:
  "0 < n \<Longrightarrow> length bytes mod n = 0 \<Longrightarrow> \<forall>u\<in>set (controlUnits n bytes). length u = n"
  by (rule length_controlUnits_dvd) auto

lemma controlUnits_bounds:
  "0 < n \<Longrightarrow> \<forall>u\<in>set (controlUnits n bytes). u \<noteq> [] \<and> length u \<le> n"
proof (induction n bytes rule: controlUnits.induct)
  case (1 n bytes)
  show ?case
  proof (cases "bytes = []")
    case True
    then show ?thesis by simp
  next
    case False
    have nz: "\<not> (n = 0 \<or> bytes = [])"
      using 1(2) False by simp
    have "\<forall>u\<in>set (controlUnits n (drop n bytes)). u \<noteq> [] \<and> length u \<le> n"
      by (rule 1(1) [OF nz 1(2)])
    moreover have "take n bytes \<noteq> []" "length (take n bytes) \<le> n"
      using 1(2) False by simp_all
    moreover have "controlUnits n bytes = take n bytes # controlUnits n (drop n bytes)"
      using 1(2) False by (rule controlUnits_step)
    ultimately show ?thesis
      by (simp del: length_take take_eq_Nil)
  qed
qed

lemma length_concat_units:
  "\<forall>u\<in>set us. length u = n \<Longrightarrow> length (concat us) = n * length us"
  by (induction us) simp_all

lemma classify_binary_unit:
  assumes "readable f"
    and "0 < getBytesPerControlChar e (Some (bomOf e f))"
    and "payload e f = concat us @ w @ rest"
    and "\<forall>u\<in>set us. length u = getBytesPerControlChar e (Some (bomOf e f))
                    \<and> \<not> doesByteSequenceSuggestBinary e u (Some (bomOf e f))"
    and "length w = getBytesPerControlChar e (Some (bomOf e f))"
    and "doesByteSequenceSuggestBinary e w (Some (bomOf e f))"
  shows "determineProcessingStatusOfFile e f
     = \<lparr>outcome = Some Binary, logged = [],
        cursor = getBytesPerBom e (Some (bomOf e f)) + length (concat us)
                 + getBytesPerControlChar e (Some (bomOf e f))\<rparr>"
proof -
  let ?v = "Some (bomOf e f)"
  let ?n = "getBytesPerControlChar e ?v"
  let ?b = "getBytesPerBom e ?v"
  let ?flags = "scanUnits (unitIsCR e ?v) (unitIsLF e ?v) (False, False) us"
  have "w \<noteq> []"
    using assms(2,5) by auto
  then have ne: "w @ rest \<noteq> []"
    by simp
  then have "payload e f \<noteq> []"
    using assms(3) by simp
  then have le: "?b \<le> length (content f)"
    by (rule payload_nonempty)
  have dropb: "drop ?b (content f) = concat us @ (w @ rest)"
    using assms(3) by (simp add: payload_def)
  have "determineProcessingStatusOfFile e f = readCallback e ?v ?n f ?b False False"
    by (rule classify_readable [OF assms(1) le])
  also have "\<dots> = readCallback e ?v ?n f (?b + length (concat us)) (fst ?flags) (snd ?flags)"
    by (rule readCallback_units [OF assms(1) assms(2) ne assms(4) dropb])
  also have "\<dots> = \<lparr>outcome = Some Binary, logged = [],
                      cursor = ?b + length (concat us) + ?n\<rparr>"
  proof (rule readCallback_binary [OF assms(1) _ assms(5) assms(6) assms(2)])
    have "drop (?b + length (concat us)) (content f)
        = drop (length (concat us)) (drop ?b (content f))"
      by (simp add: add.commute)
    then show "drop (?b + length (concat us)) (content f) = w @ rest"
      using dropb by simp
  qed
  finally show ?thesis .
qed

lemma classify_partial_unit:
  assumes "readable f"
    and "0 < getBytesPerControlChar e (Some (bomOf e f))"
    and "payload e f = concat us @ t"
    and "\<forall>u\<in>set us. length u = getBytesPerControlChar e (Some (bomOf e f))
                    \<and> \<not> doesByteSequenceSuggestBinary e u (Some (bomOf e f))"
    and "t \<noteq> []" and "length t < getBytesPerControlChar e (Some (bomOf e f))"
  shows "determineProcessingStatusOfFile e f
     = \<lparr>outcome = Some Error, logged = [WrongByteCount], cursor = length (content f)\<rparr>"
proof -
  let ?v = "Some (bomOf e f)"
  let ?n = "getBytesPerControlChar e ?v"
  let ?b = "getBytesPerBom e ?v"
  let ?flags = "scanUnits (unitIsCR e ?v) (unitIsLF e ?v) (False, False) us"
  have "payload e f \<noteq> []"
    using assms(3,5) by simp
  then have le: "?b \<le> length (content f)"
    by (rule payload_nonempty)
  have dropb: "drop ?b (content f) = concat us @ t"
    using assms(3) by (simp add: payload_def)
  have pos: "0 < length t"
    using assms(5) by simp
  have "determineProcessingStatusOfFile e f = readCallback e ?v ?n f ?b False False"
    by (rule classify_readable [OF assms(1) le])
  also have "\<dots> = readCallback e ?v ?n f (?b + length (concat us)) (fst ?flags) (snd ?flags)"
    by (rule readCallback_units [OF assms(1) assms(2) assms(5) assms(4) dropb])
  also have "\<dots> = \<lparr>outcome = Some Error, logged = [WrongByteCount],
                      cursor = ?b + length (concat us) + length t\<rparr>"
  proof (rule readCallback_partial [OF assms(1) _ pos assms(6)])
    have "drop (?b + length (concat us)) (content f)
        = drop (length (concat us)) (drop ?b (content f))"
      by (simp add: add.commute)
    then show "drop (?b + length (concat us)) (content f) = t"
      using dropb by simp
  qed
  also have "?b + length (concat us) + length t = length (content f)"
  proof -
    have "length (drop ?b (content f)) = length (concat us) + length t"
      using dropb by simp
    with le show ?thesis by simp
  qed
  finally show ?thesis .
qed

section \<open>The loop of the rewriter\<close>

lemma slice_unit: "slice (A @ P @ u @ rest) (length A + length P) (length A + length P + length u) = u"
  by (simp add: slice_def)

lemma slice_pending_without_CR:
  "slice (A @ P @ rest) (length A) (length A + length P - n) = take (length P - n) P"
proof -
  have "length A + length P - n - length A = length P - n"
    by arith
  then show ?thesis
    by (simp add: slice_def)
qed

lemma slice_pending_with_unit:
  "slice (A @ P @ u @ rest) (length A) (length A + length P + length u) = P @ u"
  by (simp add: slice_def)

lemma concat_units_empty:
  "0 < n \<Longrightarrow> \<forall>u\<in>set us. length u = n \<Longrightarrow> (concat us = []) = (us = [])"
  by (cases us) auto

lemma convertLoop_units:
  assumes "0 < n"
  shows "\<forall>u\<in>set us. length u = n \<Longrightarrow>
     convertLoop e bom n (A @ P @ concat us) (length A + length P) lastCR (length A) out
     = Some \<lparr>written = fst (writeUnits (unitIsCR e None) (unitIsLF e (Some bom)) n lastCR P
                               (written out, ended out) us),
             ended = snd (writeUnits (unitIsCR e None) (unitIsLF e (Some bom)) n lastCR P
                               (written out, ended out) us)\<rparr>"
proof (induction us arbitrary: A P lastCR out)
  case Nil
  show ?case
    by (subst convertLoop.simps) simp
next
  case (Cons u us)
  let ?cr = "unitIsCR e None" and ?lf = "unitIsLF e (Some bom)"
  let ?buf = "A @ P @ u @ concat us"
  let ?b = "length A + length P"
  have u: "length u = n" and us: "\<forall>u\<in>set us. length u = n"
    using Cons.prems by simp_all
  have inside: "?b < length ?buf"
    using u assms by simp
  have unit: "slice ?buf ?b (?b + n) = u"
    using slice_unit [of A P u "concat us"] u by simp
  have without: "slice ?buf (length A) (?b - n) = take (length P - n) P"
    using slice_pending_without_CR [of A P "u @ concat us" n] by simp
  have with_unit: "slice ?buf (length A) (?b + n) = P @ u"
    using slice_pending_with_unit [of A P u "concat us"] u by simp
  have at_end: "(?b + n = length ?buf) = (us = [])"
    using u concat_units_empty [OF assms us] by auto
  have all_empty: "(\<forall>xs\<in>set us. xs = []) = (us = [])"
    using us assms by (cases us) auto
  have keep: "\<And>l o'. convertLoop e bom n ?buf (?b + n) l (length A) o'
      = Some \<lparr>written = fst (writeUnits ?cr ?lf n l (P @ u) (written o', ended o') us),
              ended = snd (writeUnits ?cr ?lf n l (P @ u) (written o', ended o') us)\<rparr>"
    using Cons.IH [OF us, of A "P @ u"] u by (simp add: add.assoc)
  have restart: "\<And>o'. convertLoop e bom n ?buf (?b + n) False ?b o'
      = Some \<lparr>written = fst (writeUnits ?cr ?lf n False u (written o', ended o') us),
              ended = snd (writeUnits ?cr ?lf n False u (written o', ended o') us)\<rparr>"
    using Cons.IH [OF us, of "A @ P" u] u by (simp add: add.assoc)
  show ?case
  proof (cases "us = []")
    case True
    have last_unit: "?b + n = length (A @ P @ u)"
      using u by simp
    have unit1: "slice (A @ P @ u) ?b (?b + n) = u"
      using unit True by simp
    have without1: "slice (A @ P @ u) (length A) (?b - n) = take (length P - n) P"
      using without True by simp
    have with_unit1: "slice (A @ P @ u) (length A) (?b + n) = P @ u"
      using with_unit True by simp
    have stop: "\<And>l i o'. convertLoop e bom n (A @ P @ u) (?b + n) l i o' = Some o'"
      using u by (subst convertLoop.simps) simp
    have inside1: "?b < length (A @ P @ u)"
      using inside True by simp
    show ?thesis
      apply (subst convertLoop.simps)
      apply (simp only: True concat.simps append_Nil2)
      using inside1 assms
      apply (simp add: unit1 without1 with_unit1 stop Let_def u del: append_assoc)
      done
  next
    case False
    show ?thesis
      apply (subst convertLoop.simps)
      apply (simp only: concat.simps)
      using inside assms False
      apply (simp add: unit without with_unit at_end all_empty keep restart Let_def u
          del: append_assoc)
      done
  qed
qed


lemma endsOrdinary_Cons:
  "\<not> cr u \<Longrightarrow> us \<noteq> [] \<Longrightarrow> endsOrdinary cr lf (u # us) = endsOrdinary cr lf us"
  by (induction cr lf us rule: endsOrdinary.induct) auto

lemma endsOrdinary_Cons_CR:
  "us \<noteq> [] \<Longrightarrow> tl us \<noteq> [] \<Longrightarrow> endsOrdinary cr lf (c # us) = endsOrdinary cr lf us"
  by (cases us; cases "tl us") auto

lemma dropCRs_Cons_keep:
  "\<not> cr u \<Longrightarrow> dropCRs cr lf (u # us) = u # dropCRs cr lf us"
  by (cases us) auto

lemma writeUnits_finalised:
  assumes "\<forall>u. \<not> (cr u \<and> lf u)"
  shows "\<forall>u\<in>set us. length u = n \<Longrightarrow>
      (endsOrdinary cr lf us \<longrightarrow>
         writeUnits cr lf n False P (sent, fin) us
           = (sent @ P @ concat (dropCRs cr lf us), True))
      \<and> (cr c \<longrightarrow> length c = n \<longrightarrow> endsOrdinary cr lf (c # us) \<longrightarrow>
         writeUnits cr lf n True (Q @ c) (sent, fin) us
           = (sent @ Q @ concat (dropCRs cr lf (c # us)), True))"
proof (induction us arbitrary: P Q c sent fin)
  case Nil
  show ?case by simp
next
  case (Cons u us)
  have u: "length u = n" and us: "\<forall>u\<in>set us. length u = n"
    using Cons.prems by simp_all
  have excl: "\<not> (cr u \<and> lf u)"
    using assms by blast
  note IH = Cons.IH [OF us]
  have IH1: "\<And>P sent fin. endsOrdinary cr lf us \<Longrightarrow>
      writeUnits cr lf n False P (sent, fin) us = (sent @ P @ concat (dropCRs cr lf us), True)"
    using IH by blast
  have IH2: "\<And>Q c sent fin. cr c \<Longrightarrow> length c = n \<Longrightarrow> endsOrdinary cr lf (c # us) \<Longrightarrow>
      writeUnits cr lf n True (Q @ c) (sent, fin) us
        = (sent @ Q @ concat (dropCRs cr lf (c # us)), True)"
    using IH by blast
  have first: "writeUnits cr lf n False P (sent, fin) (u # us)
      = (sent @ P @ concat (dropCRs cr lf (u # us)), True)"
    if ord: "endsOrdinary cr lf (u # us)"
  proof (cases "cr u")
    case True
    then show ?thesis
      using IH2 [OF True u ord, of P sent fin] by simp
  next
    case False
    show ?thesis
    proof (cases "us = []")
      case True
      with False u show ?thesis by simp
    next
      case nonempty: False
      with ord False have "endsOrdinary cr lf us"
        by (simp add: endsOrdinary_Cons)
      then show ?thesis
        using False nonempty IH1 [of "P @ u" sent fin]
        by (simp add: dropCRs_Cons_keep)
    qed
  qed
  have second: "writeUnits cr lf n True (Q @ c) (sent, fin) (u # us)
      = (sent @ Q @ concat (dropCRs cr lf (c # u # us)), True)"
    if c: "cr c" "length c = n" and ord: "endsOrdinary cr lf (c # u # us)"
  proof (cases "cr u")
    case True
    with ord have nonempty: "us \<noteq> []"
      by auto
    with ord have "endsOrdinary cr lf (u # us)"
      by (cases us) auto
    with True excl show ?thesis
      using IH2 [OF True u, of "Q @ c" sent fin] by simp
  next
    case False
    show ?thesis
    proof (cases "lf u")
      case True
      with ord c(1) have nonempty: "us \<noteq> []"
        by auto
      with ord have "endsOrdinary cr lf (u # us)"
        by (cases us) auto
      with False nonempty have "endsOrdinary cr lf us"
        by (simp add: endsOrdinary_Cons)
      then show ?thesis
        using False True c IH1 [of u "sent @ Q" fin]
        by (simp add: dropCRs_Cons_keep)
    next
      case notLF: False
      show ?thesis
      proof (cases "us = []")
        case True
        with False notLF u show ?thesis by simp
      next
        case nonempty: False
        with ord have "endsOrdinary cr lf (u # us)"
          by (cases us) auto
        with False nonempty have "endsOrdinary cr lf us"
          by (simp add: endsOrdinary_Cons)
        then show ?thesis
          using False notLF nonempty IH1 [of "Q @ c @ u" sent fin]
          by (simp add: dropCRs_Cons_keep)
      qed
    qed
  qed
  from first second show ?case
    by blast
qed


lemma set_dropCRs: "set (dropCRs cr lf us) \<subseteq> set us"
  by (induction cr lf us rule: dropCRs.induct) auto

lemma dropCRs_nonempty: "us \<noteq> [] \<Longrightarrow> dropCRs cr lf us \<noteq> []"
  by (induction cr lf us rule: dropCRs.induct) auto

lemma hd_dropCRs:
  assumes "\<forall>u. \<not> (cr u \<and> lf u)"
  shows "hd (dropCRs cr lf (u # us))
     = (if us \<noteq> [] \<and> cr u \<and> lf (hd us) then hd us else u)"
proof (cases us)
  case Nil
  then show ?thesis by simp
next
  case (Cons v vs)
  from assms have "lf v \<Longrightarrow> \<not> cr v" by blast
  then show ?thesis
    using Cons by (simp add: dropCRs_Cons_keep)
qed

lemma hasCRCRLF_Cons: "hasCRCRLF cr lf (u # us) \<or> \<not> hasCRCRLF cr lf us"
  by (cases us; cases "tl us") auto

lemma no_CRLF_after_dropCRs:
  "\<forall>u. \<not> (cr u \<and> lf u) \<Longrightarrow> \<not> hasCRCRLF cr lf us \<Longrightarrow> \<not> hasCRLF cr lf (dropCRs cr lf us)"
proof (induction cr lf us rule: dropCRs.induct)
  case (1 cr lf u v us)
  have tail: "\<not> hasCRCRLF cr lf (v # us)"
    using "1.prems"(2) hasCRCRLF_Cons [of cr lf u "v # us"] by blast
  show ?case
  proof (cases "cr u \<and> lf v")
    case True
    with 1 tail show ?thesis by simp
  next
    case False
    have rest: "\<not> hasCRLF cr lf (dropCRs cr lf (v # us))"
      using 1 False tail by simp
    have "\<not> (cr u \<and> lf (hd (dropCRs cr lf (v # us))))"
    proof (cases "us \<noteq> [] \<and> cr v \<and> lf (hd us)")
      case True
      then obtain w ws where "us = w # ws" "cr v" "lf w"
        by (cases us) auto
      with "1.prems"(2) have "\<not> cr u" by simp
      then show ?thesis by simp
    next
      case notCR: False
      then have "hd (dropCRs cr lf (v # us)) = v"
        using hd_dropCRs [OF "1.prems"(1), of v us] by auto
      with False show ?thesis by simp
    qed
    with rest False show ?thesis
      by (simp add: hasCRLF_Cons)
  qed
qed simp_all


lemma convert_units:
  assumes "readable f"
    and "0 < getBytesPerControlChar e (Some (bomOf e f))"
    and "payload e f = concat us"
    and "\<forall>u\<in>set us. length u = getBytesPerControlChar e (Some (bomOf e f))"
    and "getBytesPerBom e (Some (bomOf e f)) \<le> length (content f)"
  shows "convertFileFromDosToUnix e f
     = Rewritten
         \<lparr>written = fst (writeUnits (unitIsCR e None) (unitIsLF e (Some (bomOf e f)))
                           (getBytesPerControlChar e (Some (bomOf e f))) False
                           (take (getBytesPerBom e (Some (bomOf e f))) (content f))
                           ([], False) us),
          ended = snd (writeUnits (unitIsCR e None) (unitIsLF e (Some (bomOf e f)))
                           (getBytesPerControlChar e (Some (bomOf e f))) False
                           (take (getBytesPerBom e (Some (bomOf e f))) (content f))
                           ([], False) us)\<rparr>"
proof -
  let ?v = "Some (bomOf e f)"
  let ?n = "getBytesPerControlChar e ?v"
  let ?b = "getBytesPerBom e ?v"
  let ?P = "take ?b (content f)"
  have lenP: "length ?P = ?b"
    using assms(5) by simp
  have "drop ?b (content f) = concat us"
    using assms(3) by (simp add: payload_def)
  then have buf: "content f = [] @ ?P @ concat us"
    using append_take_drop_id [of ?b "content f"] by simp
  have "convertLoop e (bomOf e f) ?n ([] @ ?P @ concat us) (length ([] :: byte list) + length ?P)
          False (length ([] :: byte list)) \<lparr>written = [], ended = False\<rparr>
      = Some \<lparr>written = fst (writeUnits (unitIsCR e None) (unitIsLF e ?v) ?n False ?P
                                ([], False) us),
              ended = snd (writeUnits (unitIsCR e None) (unitIsLF e ?v) ?n False ?P
                                ([], False) us)\<rparr>"
    using convertLoop_units [OF assms(2) assms(4), of e "bomOf e f" "[]" ?P False
        "\<lparr>written = [], ended = False\<rparr>"]
    by simp
  then have "convertLoop e (bomOf e f) ?n (content f) ?b False 0 \<lparr>written = [], ended = False\<rparr>
      = Some \<lparr>written = fst (writeUnits (unitIsCR e None) (unitIsLF e ?v) ?n False ?P
                                ([], False) us),
              ended = snd (writeUnits (unitIsCR e None) (unitIsLF e ?v) ?n False ?P
                                ([], False) us)\<rparr>"
    using buf lenP by (simp del: length_take)
  then show ?thesis
    using assms(1)
    by (simp add: convertFileFromDosToUnix_def slice_def bomOf_def Let_def)
qed

lemma units_nonempty_payload:
  assumes "0 < n" and "us \<noteq> []" and "\<forall>u\<in>set us. length u = n"
  shows "concat us \<noteq> []"
  using assms by (cases us) auto

lemma convert_finalised:
  assumes "readable f"
    and "0 < getBytesPerControlChar e (Some (bomOf e f))"
    and "payload e f = concat us"
    and "\<forall>u\<in>set us. length u = getBytesPerControlChar e (Some (bomOf e f))"
    and "endsOrdinary (unitIsCR e None) (unitIsLF e (Some (bomOf e f))) us"
    and "\<forall>u. \<not> (isByteSequenceCR e u None \<and> isByteSequenceLF e u (Some (bomOf e f)))"
  shows "convertFileFromDosToUnix e f
     = Rewritten
         \<lparr>written = take (getBytesPerBom e (Some (bomOf e f))) (content f)
                     @ concat (dropCRs (unitIsCR e None) (unitIsLF e (Some (bomOf e f))) us),
          ended = True\<rparr>"
proof -
  let ?v = "Some (bomOf e f)"
  let ?n = "getBytesPerControlChar e ?v"
  let ?b = "getBytesPerBom e ?v"
  have "us \<noteq> []"
    using assms(5) by auto
  then have "payload e f \<noteq> []"
    using assms(2,3,4) units_nonempty_payload by metis
  then have le: "?b \<le> length (content f)"
    by (rule payload_nonempty)
  have "writeUnits (unitIsCR e None) (unitIsLF e ?v) ?n False (take ?b (content f)) ([], False) us
      = ([] @ take ?b (content f) @ concat (dropCRs (unitIsCR e None) (unitIsLF e ?v) us), True)"
    using writeUnits_finalised [OF assms(6) assms(4)] assms(5) by blast
  then show ?thesis
    by (simp add: convert_units [OF assms(1) assms(2) assms(3) assms(4) le])
qed

lemma reclassified_good:
  assumes "readable f"
    and "0 < getBytesPerControlChar e (Some (bomOf e f))"
    and "payload e f = concat us"
    and "\<forall>u\<in>set us. length u = getBytesPerControlChar e (Some (bomOf e f))
                    \<and> \<not> doesByteSequenceSuggestBinary e u (Some (bomOf e f))"
    and "endsOrdinary (unitIsCR e (Some (bomOf e f))) (unitIsLF e (Some (bomOf e f))) us"
    and "\<forall>u. isByteSequenceCR e u None = isByteSequenceCR e u (Some (bomOf e f))"
    and "\<forall>u. \<not> (isByteSequenceCR e u (Some (bomOf e f))
                \<and> isByteSequenceLF e u (Some (bomOf e f)))"
    and "\<not> hasCRCRLF (unitIsCR e (Some (bomOf e f))) (unitIsLF e (Some (bomOf e f))) us"
    and "f' = f\<lparr>content := take (getBytesPerBom e (Some (bomOf e f))) (content f)
                  @ concat (dropCRs (unitIsCR e (Some (bomOf e f)))
                              (unitIsLF e (Some (bomOf e f))) us)\<rparr>"
    and "bomOf e f' = bomOf e f"
  shows "fileAfterRewrite e f = Some f'
       \<and> outcome (determineProcessingStatusOfFile e f') = Some Good"
proof -
  let ?v = "Some (bomOf e f)"
  let ?n = "getBytesPerControlChar e ?v"
  let ?b = "getBytesPerBom e ?v"
  let ?cr = "unitIsCR e ?v" and ?lf = "unitIsLF e ?v"
  let ?ds = "dropCRs ?cr ?lf us"
  have crN: "unitIsCR e None = ?cr"
    using assms(6) by auto
  have len: "\<forall>u\<in>set us. length u = ?n"
    using assms(4) by simp
  have "us \<noteq> []"
    using assms(5) by auto
  then have "payload e f \<noteq> []"
    using assms(2,3) len units_nonempty_payload by metis
  then have le: "?b \<le> length (content f)"
    by (rule payload_nonempty)
  have ord: "endsOrdinary (unitIsCR e None) ?lf us"
    using assms(5) crN by simp
  have excl: "\<forall>u. \<not> (isByteSequenceCR e u None \<and> isByteSequenceLF e u ?v)"
    using assms(6,7) by simp
  have "convertFileFromDosToUnix e f
      = Rewritten \<lparr>written = take ?b (content f) @ concat ?ds, ended = True\<rparr>"
    using convert_finalised [OF assms(1) assms(2) assms(3) len ord excl] crN by simp
  then have rewritten: "fileAfterRewrite e f = Some f'"
    by (simp add: fileAfterRewrite_def assms(9))
  have r': "readable f'"
    using assms(1,9) by simp
  have n': "0 < getBytesPerControlChar e (Some (bomOf e f'))"
    using assms(2,10) by simp
  have "payload e f' = drop ?b (take ?b (content f) @ concat ?ds)"
    using assms(9,10) by (simp add: payload_def)
  also have "\<dots> = concat ?ds"
    using le by simp
  finally have cat': "payload e f' = concat ?ds" .
  have ne': "?ds \<noteq> []"
    using \<open>us \<noteq> []\<close> by (rule dropCRs_nonempty)
  have full': "\<forall>u\<in>set ?ds. length u = getBytesPerControlChar e (Some (bomOf e f'))
                 \<and> \<not> doesByteSequenceSuggestBinary e u (Some (bomOf e f'))"
    using assms(4,10) set_dropCRs [of ?cr ?lf us] by auto
  have "outcome (determineProcessingStatusOfFile e f')
      = Some (if snd (scanUnits (unitIsCR e (Some (bomOf e f'))) (unitIsLF e (Some (bomOf e f')))
                        (False, False) ?ds) then Bad else Good)"
    by (simp add: classify_full_scan [OF r' n' cat' ne' full'])
  also have "snd (scanUnits (unitIsCR e (Some (bomOf e f'))) (unitIsLF e (Some (bomOf e f')))
                    (False, False) ?ds) = hasCRLF ?cr ?lf ?ds"
    using assms(7,10) by (simp add: scanUnits_needsFixing)
  finally have "outcome (determineProcessingStatusOfFile e f')
      = Some (if hasCRLF ?cr ?lf ?ds then Bad else Good)" .
  moreover have "\<not> hasCRLF ?cr ?lf ?ds"
    using assms(7,8) by (rule no_CRLF_after_dropCRs)
  ultimately show ?thesis
    using rewritten by simp
qed

lemma take_dropCRs:
  "\<forall>u. \<not> (cr u \<and> lf u) \<Longrightarrow> \<forall>u\<in>set (take k (dropCRs cr lf us)). \<not> lf u \<Longrightarrow>
   take k (dropCRs cr lf us) = take k us"
proof (induction cr lf us arbitrary: k rule: dropCRs.induct)
  case (1 cr lf u v us)
  note excl = "1.prems"(1) and noLF = "1.prems"(2)
  show ?case
  proof (cases k)
    case 0
    then show ?thesis by simp
  next
    case (Suc j)
    show ?thesis
    proof (cases "cr u \<and> lf v")
      case True
      from excl have "\<not> (cr v \<and> lf v)" by (rule spec)
      with True have "\<not> cr v" by simp
      then have "dropCRs cr lf (v # us) = v # dropCRs cr lf us"
        by (rule dropCRs_Cons_keep)
      with True have "dropCRs cr lf (u # v # us) = v # dropCRs cr lf us"
        by simp
      then have "v \<in> set (take k (dropCRs cr lf (u # v # us)))"
        using Suc by simp
      with noLF have "\<not> lf v" by (rule bspec)
      with True show ?thesis by simp
    next
      case False
      then have eq: "dropCRs cr lf (u # v # us) = u # dropCRs cr lf (v # us)"
        by simp
      have "\<forall>w\<in>set (take j (dropCRs cr lf (v # us))). \<not> lf w"
      proof
        fix w
        assume "w \<in> set (take j (dropCRs cr lf (v # us)))"
        then have "w \<in> set (take k (dropCRs cr lf (u # v # us)))"
          unfolding eq Suc by simp
        with noLF show "\<not> lf w" by (rule bspec)
      qed
      with False excl have "take j (dropCRs cr lf (v # us)) = take j (v # us)"
        by (rule "1.IH"(2))
      then show ?thesis
        unfolding eq Suc by simp
    qed
  qed
qed simp_all

lemma take_concat_single:
  "\<forall>u\<in>set us. length u = Suc 0 \<Longrightarrow> take k (concat us) = concat (take k us)"
proof (induction us arbitrary: k)
  case Nil
  show ?case by simp
next
  case (Cons u us)
  then show ?case
    by (cases k) simp_all
qed

section \<open>The modelled encoding module and plain files\<close>

lemma specEncoder_simps [simp]:
  "detectBomFromBuffer specEncoder = specDetectBomFromBuffer"
  "getBytesPerBom specEncoder v = bytesPerBomOf (variantOf v)"
  "getBytesPerControlChar specEncoder v = bytesPerControlCharOf (variantOf v)"
  "isByteSequenceCR specEncoder u v = (u = controlUnit 0x0D (variantOf v))"
  "isByteSequenceLF specEncoder u v = (u = controlUnit 0x0A (variantOf v))"
  "doesByteSequenceSuggestBinary specEncoder u v = (u = controlUnit 0x00 (variantOf v))"
  by (simp_all add: specEncoder_def)

lemma fileOf_simps [simp]:
  "readable (fileOf bytes)" "content (fileOf bytes) = bytes" "\<not> closeFails (fileOf bytes)"
  by (simp_all add: fileOf_def)

lemma specDetect_NoBom_iff:
  "specDetectBomFromBuffer (take 4 bytes) = NoBom \<longleftrightarrow>
     take 4 bytes \<noteq> [0xFF, 0xFE, 0x00, 0x00] \<and> take 4 bytes \<noteq> [0x00, 0x00, 0xFE, 0xFF]
     \<and> take 3 bytes \<noteq> [0xEF, 0xBB, 0xBF]
     \<and> take 2 bytes \<noteq> [0xFF, 0xFE] \<and> take 2 bytes \<noteq> [0xFE, 0xFF]"
  by (simp add: specDetectBomFromBuffer_def)

lemma specDetect_UTF8:
  "specDetectBomFromBuffer (take 4 bytes) = UTF8 \<Longrightarrow> take 3 bytes = [0xEF, 0xBB, 0xBF]"
  by (simp add: specDetectBomFromBuffer_def split: if_splits)

lemma specDetect_UTF8_prefix:
  "specDetectBomFromBuffer (take 4 ([0xEF, 0xBB, 0xBF] @ bytes)) = UTF8"
  by (simp add: specDetectBomFromBuffer_def)

lemma single_units_prefix:
  fixes us :: "byte list list"
  assumes "\<forall>u\<in>set us. length u = Suc 0"
    and "take k (concat (dropCRs (\<lambda>u. u = [0x0D]) (\<lambda>u. u = [0x0A]) us)) = sig"
    and "0x0A \<notin> set sig"
  shows "take k (concat us) = sig"
proof -
  let ?cr = "\<lambda>u :: byte list. u = [0x0D]" and ?lf = "\<lambda>u :: byte list. u = [0x0A]"
  let ?ds = "dropCRs ?cr ?lf us"
  have single: "\<forall>u\<in>set ?ds. length u = Suc 0"
    using assms(1) set_dropCRs [of ?cr ?lf us] by blast
  have cat: "take k (concat ?ds) = concat (take k ?ds)"
    using single by (rule take_concat_single)
  have "\<forall>u\<in>set (take k ?ds). \<not> ?lf u"
  proof
    fix u
    assume u: "u \<in> set (take k ?ds)"
    show "\<not> ?lf u"
    proof
      assume "u = [0x0A]"
      with u have "[0x0A] \<in> set (take k ?ds)"
        by simp
      then have "0x0A \<in> set (concat (take k ?ds))"
        unfolding set_concat by (rule UN_I) simp
      with cat assms(2,3) show False
        by simp
    qed
  qed
  moreover have "\<forall>u. \<not> (?cr u \<and> ?lf u)"
    by simp
  ultimately have "take k ?ds = take k us"
    by (rule take_dropCRs [rotated])
  then have "concat (take k ?ds) = take k (concat us)"
    using take_concat_single [OF assms(1), of k] by simp
  with cat assms(2) show ?thesis
    by simp
qed

lemma spec_NoBom_stable:
  fixes us :: "byte list list"
  assumes "\<forall>u\<in>set us. length u = Suc 0"
    and "specDetectBomFromBuffer (take 4 (concat us)) = NoBom"
  shows "specDetectBomFromBuffer
           (take 4 (concat (dropCRs (\<lambda>u. u = [0x0D]) (\<lambda>u. u = [0x0A]) us))) = NoBom"
proof -
  let ?D = "concat (dropCRs (\<lambda>u :: byte list. u = [0x0D]) (\<lambda>u. u = [0x0A]) us)"
  note keep = single_units_prefix [OF assms(1)]
  from assms(2) have orig:
    "take 4 (concat us) \<noteq> [0xFF, 0xFE, 0x00, 0x00]"
    "take 4 (concat us) \<noteq> [0x00, 0x00, 0xFE, 0xFF]"
    "take 3 (concat us) \<noteq> [0xEF, 0xBB, 0xBF]"
    "take 2 (concat us) \<noteq> [0xFF, 0xFE]"
    "take 2 (concat us) \<noteq> [0xFE, 0xFF]"
    by (simp_all add: specDetect_NoBom_iff)
  have "take 4 ?D \<noteq> [0xFF, 0xFE, 0x00, 0x00]"
    using keep [of 4 "[0xFF, 0xFE, 0x00, 0x00]"] orig(1) by auto
  moreover have "take 4 ?D \<noteq> [0x00, 0x00, 0xFE, 0xFF]"
    using keep [of 4 "[0x00, 0x00, 0xFE, 0xFF]"] orig(2) by auto
  moreover have "take 3 ?D \<noteq> [0xEF, 0xBB, 0xBF]"
    using keep [of 3 "[0xEF, 0xBB, 0xBF]"] orig(3) by auto
  moreover have "take 2 ?D \<noteq> [0xFF, 0xFE]"
    using keep [of 2 "[0xFF, 0xFE]"] orig(4) by auto
  moreover have "take 2 ?D \<noteq> [0xFE, 0xFF]"
    using keep [of 2 "[0xFE, 0xFF]"] orig(5) by auto
  ultimately show ?thesis
    by (simp only: specDetect_NoBom_iff) simp
qed


lemma spec_single_byte_units:
  assumes "bomOf specEncoder f = NoBom \<or> bomOf specEncoder f = UTF8"
  shows "getBytesPerControlChar specEncoder (Some (bomOf specEncoder f)) = Suc 0"
    and "\<forall>u\<in>set (unitsOf specEncoder f). length u = Suc 0"
    and "payload specEncoder f = concat (unitsOf specEncoder f)"
proof -
  have n: "bytesPerControlCharOf (bomOf specEncoder f) = Suc 0"
    using assms by auto
  then show "getBytesPerControlChar specEncoder (Some (bomOf specEncoder f)) = Suc 0"
    by simp
  have "\<forall>u\<in>set (controlUnits (Suc 0) (payload specEncoder f)). length u = Suc 0"
    by (rule length_controlUnits) simp_all
  then show "\<forall>u\<in>set (unitsOf specEncoder f). length u = Suc 0"
    by (simp add: unitsOf_def n)
  show "payload specEncoder f = concat (unitsOf specEncoder f)"
    by (simp add: unitsOf_def n concat_controlUnits)
qed

lemma spec_bom_stable:
  assumes "bomOf specEncoder f = NoBom \<or> bomOf specEncoder f = UTF8"
    and "f' = f\<lparr>content :=
                  take (getBytesPerBom specEncoder (Some (bomOf specEncoder f))) (content f)
                  @ concat (dropCRs (unitIsCR specEncoder (Some (bomOf specEncoder f)))
                              (unitIsLF specEncoder (Some (bomOf specEncoder f)))
                              (unitsOf specEncoder f))\<rparr>"
  shows "bomOf specEncoder f' = bomOf specEncoder f"
  using assms(1)
proof
  assume plain: "bomOf specEncoder f = NoBom"
  let ?D = "concat (dropCRs (\<lambda>u. u = [0x0D]) (\<lambda>u. u = [0x0A]) (unitsOf specEncoder f))"
  have single: "\<forall>u\<in>set (unitsOf specEncoder f). length u = Suc 0"
    using assms(1) by (rule spec_single_byte_units)
  have "payload specEncoder f = concat (unitsOf specEncoder f)"
    using assms(1) by (rule spec_single_byte_units)
  then have cat: "content f = concat (unitsOf specEncoder f)"
    by (simp add: payload_def plain)
  have "specDetectBomFromBuffer (take 4 (content f)) = NoBom"
    using plain by (simp add: bomOf_def)
  then have "specDetectBomFromBuffer (take 4 (concat (unitsOf specEncoder f))) = NoBom"
    using cat by simp
  then have stable: "specDetectBomFromBuffer (take 4 ?D) = NoBom"
    by (rule spec_NoBom_stable [OF single])
  have "content f' = ?D"
    by (simp add: assms(2) plain)
  then have "bomOf specEncoder f' = specDetectBomFromBuffer (take 4 ?D)"
    by (simp add: bomOf_def)
  with stable plain show ?thesis
    by simp
next
  assume utf8: "bomOf specEncoder f = UTF8"
  let ?D = "concat (dropCRs (\<lambda>u. u = [0x0D]) (\<lambda>u. u = [0x0A]) (unitsOf specEncoder f))"
  have "specDetectBomFromBuffer (take 4 (content f)) = UTF8"
    using utf8 by (simp add: bomOf_def)
  then have "take 3 (content f) = [0xEF, 0xBB, 0xBF]"
    by (rule specDetect_UTF8)
  moreover have "content f' = take 3 (content f) @ ?D"
    by (simp add: assms(2) utf8)
  ultimately have "content f' = [0xEF, 0xBB, 0xBF] @ ?D"
    by simp
  then have "bomOf specEncoder f' = specDetectBomFromBuffer (take 4 ([0xEF, 0xBB, 0xBF] @ ?D))"
    by (simp add: bomOf_def)
  also have "\<dots> = UTF8"
    by (rule specDetect_UTF8_prefix)
  finally show ?thesis
    using utf8 by simp
qed

section \<open>Classification\<close>

text \<open>
  C4. An empty file, and more generally a file that holds nothing after its BOM, should
  be classified \<open>Good\<close>. On a file of 0 bytes the reader reports an error and the
  status is \<open>Error\<close>. On a file that holds only its BOM the first read of a control
  unit returns no bytes; the callback has no branch for that, so \<^verbatim>\<open>done\<close> is never
  called and the classification has no status.
\<close>

theorem empty_payload_not_classified_good:
  "outcome (determineProcessingStatusOfFile specEncoder (fileOf [0xEF, 0xBB, 0xBF])) = None
   \<and> outcome (determineProcessingStatusOfFile specEncoder (fileOf [])) = Some Error"
  by code_simp

text \<open>
  C5, as stated: every failure ends the classification with the status \<open>Error\<close>. A
  failure to close the reader does not: the file below is read to its end, closing fails,
  the failure is logged and the status is the one the scan found.
\<close>

theorem close_failure_counterexample:
  "closeFails ((fileOf [0x61])\<lparr>closeFails := True\<rparr>)
   \<and> logged (determineProcessingStatusOfFile specEncoder ((fileOf [0x61])\<lparr>closeFails := True\<rparr>))
       = [CloseFailed]
   \<and> outcome (determineProcessingStatusOfFile specEncoder ((fileOf [0x61])\<lparr>closeFails := True\<rparr>))
       \<noteq> Some Error"
  by code_simp

text \<open>
  C5, amended: for every encoding module, a file that cannot be opened or read is
  classified \<open>Error\<close>, with the read failure logged, whatever BOM detection made of
  it; and whether closing the reader fails has no influence on the status.
\<close>

theorem read_failure_is_error:
  "(\<not> readable f \<longrightarrow>
      outcome (determineProcessingStatusOfFile e f) = Some Error
      \<and> logged (determineProcessingStatusOfFile e f) = [ReadFailed])
   \<and> outcome (determineProcessingStatusOfFile e (f\<lparr>closeFails := c\<rparr>))
       = outcome (determineProcessingStatusOfFile e f)"
  by (simp add: classify_unreadable classify_closeFails)

theorem read_failure_is_error_witness:
  "outcome (determineProcessingStatusOfFile specEncoder ((fileOf [0x61])\<lparr>readable := False\<rparr>))
     = Some Error"
proof -
  have "\<not> readable ((fileOf [0x61])\<lparr>readable := False\<rparr>)"
    by simp
  with read_failure_is_error [of "(fileOf [0x61])\<lparr>readable := False\<rparr>" specEncoder]
  show ?thesis by blast
qed

text \<open>
  C2. A readable file whose content after the BOM is not empty and is a whole number of
  control units, none of them suggesting binary content, is scanned to its end. For such a
  file, and an encoding module in which no byte sequence is both CR and LF, the status is
  \<open>Bad\<close> exactly when some CR unit is followed at once by an LF unit, and \<open>Good\<close>
  otherwise: in particular when no unit is a CR, and when the only CR is the last unit.
\<close>

theorem classification_bad_iff_CRLF:
  assumes "readable f"
    and "0 < getBytesPerControlChar e (Some (bomOf e f))"
    and "payload e f \<noteq> []"
    and "length (payload e f) mod getBytesPerControlChar e (Some (bomOf e f)) = 0"
    and "\<forall>u\<in>set (unitsOf e f). \<not> doesByteSequenceSuggestBinary e u (Some (bomOf e f))"
    and "\<forall>u. \<not> (isByteSequenceCR e u (Some (bomOf e f))
                \<and> isByteSequenceLF e u (Some (bomOf e f)))"
  shows "(outcome (determineProcessingStatusOfFile e f) = Some Bad
            \<longleftrightarrow> hasCRLF (unitIsCR e (Some (bomOf e f))) (unitIsLF e (Some (bomOf e f)))
                  (unitsOf e f))
       \<and> (\<not> hasCRLF (unitIsCR e (Some (bomOf e f))) (unitIsLF e (Some (bomOf e f)))
              (unitsOf e f)
            \<longrightarrow> outcome (determineProcessingStatusOfFile e f) = Some Good)
       \<and> ((\<forall>u\<in>set (unitsOf e f). \<not> isByteSequenceCR e u (Some (bomOf e f)))
            \<longrightarrow> outcome (determineProcessingStatusOfFile e f) = Some Good)
       \<and> ((\<forall>u\<in>set (butlast (unitsOf e f)). \<not> isByteSequenceCR e u (Some (bomOf e f)))
            \<longrightarrow> outcome (determineProcessingStatusOfFile e f) = Some Good)"
proof -
  let ?v = "Some (bomOf e f)"
  let ?n = "getBytesPerControlChar e ?v"
  let ?us = "unitsOf e f"
  let ?cr = "unitIsCR e ?v" and ?lf = "unitIsLF e ?v"
  have cat: "payload e f = concat ?us"
    using assms(2) by (simp add: unitsOf_def concat_controlUnits)
  have ne: "?us \<noteq> []"
    using assms(2,3) by (simp add: unitsOf_def controlUnits_nonempty)
  have "\<forall>u\<in>set ?us. length u = ?n"
    unfolding unitsOf_def using assms(2,4) by (rule length_controlUnits)
  with assms(5)
  have full: "\<forall>u\<in>set ?us. length u = ?n \<and> \<not> doesByteSequenceSuggestBinary e u ?v"
    by simp
  have "outcome (determineProcessingStatusOfFile e f)
      = Some (if snd (scanUnits ?cr ?lf (False, False) ?us) then Bad else Good)"
    by (simp add: classify_full_scan [OF assms(1) assms(2) cat ne full])
  also have "snd (scanUnits ?cr ?lf (False, False) ?us) = hasCRLF ?cr ?lf ?us"
    using assms(6) by (simp add: scanUnits_needsFixing)
  finally have status: "outcome (determineProcessingStatusOfFile e f)
      = Some (if hasCRLF ?cr ?lf ?us then Bad else Good)" .
  have "hasCRLF ?cr ?lf ?us \<Longrightarrow> \<exists>u\<in>set (butlast ?us). ?cr u"
    by (rule hasCRLF_needs_CR)
  moreover have "set (butlast ?us) \<subseteq> set ?us"
    by (auto dest: in_set_butlastD)
  ultimately show ?thesis
    using status by auto
qed

theorem classification_bad_iff_CRLF_witness:
  "outcome (determineProcessingStatusOfFile specEncoder (fileOf [0x61, 0x0D, 0x0A, 0x62]))
     = Some Bad
   \<and> outcome (determineProcessingStatusOfFile specEncoder (fileOf [0x61, 0x0A, 0x62, 0x0D]))
     = Some Good"
proof -
  let ?f = "fileOf [0x61, 0x0D, 0x0A, 0x62]" and ?g = "fileOf [0x61, 0x0A, 0x62, 0x0D]"
  have bf: "bomOf specEncoder ?f = NoBom" and bg: "bomOf specEncoder ?g = NoBom"
    by code_simp+
  have uf: "unitsOf specEncoder ?f = [[0x61], [0x0D], [0x0A], [0x62]]"
    by code_simp
  have ug: "unitsOf specEncoder ?g = [[0x61], [0x0A], [0x62], [0x0D]]"
    by code_simp
  have f1: "readable ?f" and g1: "readable ?g"
    by simp_all
  have f2: "0 < getBytesPerControlChar specEncoder (Some (bomOf specEncoder ?f))"
    and g2: "0 < getBytesPerControlChar specEncoder (Some (bomOf specEncoder ?g))"
    by (simp_all add: bf bg)
  have f3: "payload specEncoder ?f \<noteq> []" and g3: "payload specEncoder ?g \<noteq> []"
    by (simp_all add: payload_def bf bg)
  have f4: "length (payload specEncoder ?f)
              mod getBytesPerControlChar specEncoder (Some (bomOf specEncoder ?f)) = 0"
    and g4: "length (payload specEncoder ?g)
              mod getBytesPerControlChar specEncoder (Some (bomOf specEncoder ?g)) = 0"
    by (simp_all add: bf bg)
  have f5: "\<forall>u\<in>set (unitsOf specEncoder ?f).
              \<not> doesByteSequenceSuggestBinary specEncoder u (Some (bomOf specEncoder ?f))"
    by (simp add: uf bf)
  have g5: "\<forall>u\<in>set (unitsOf specEncoder ?g).
              \<not> doesByteSequenceSuggestBinary specEncoder u (Some (bomOf specEncoder ?g))"
    by (simp add: ug bg)
  have f6: "\<forall>u. \<not> (isByteSequenceCR specEncoder u (Some (bomOf specEncoder ?f))
                  \<and> isByteSequenceLF specEncoder u (Some (bomOf specEncoder ?f)))"
    and g6: "\<forall>u. \<not> (isByteSequenceCR specEncoder u (Some (bomOf specEncoder ?g))
                  \<and> isByteSequenceLF specEncoder u (Some (bomOf specEncoder ?g)))"
    by (simp_all add: bf bg)
  have "hasCRLF (unitIsCR specEncoder (Some (bomOf specEncoder ?f)))
          (unitIsLF specEncoder (Some (bomOf specEncoder ?f))) (unitsOf specEncoder ?f)"
    by (simp add: uf bf)
  moreover have "\<forall>u\<in>set (butlast (unitsOf specEncoder ?g)).
       \<not> isByteSequenceCR specEncoder u (Some (bomOf specEncoder ?g))"
    by (simp add: ug bg)
  ultimately show ?thesis
    using classification_bad_iff_CRLF [OF f1 f2 f3 f4 f5 f6]
      classification_bad_iff_CRLF [OF g1 g2 g3 g4 g5 g6]
    by blast
qed

text \<open>
  C8. When the units of a readable file contain one that suggests binary content, the
  status is \<open>Binary\<close> and the reader's cursor stops right behind the first such unit:
  none of the units after it is read.
\<close>

theorem binary_unit_stops_scan:
  assumes "readable f"
    and "0 < getBytesPerControlChar e (Some (bomOf e f))"
    and "unitsOf e f = us @ w # vs"
    and "\<forall>u\<in>set us. \<not> doesByteSequenceSuggestBinary e u (Some (bomOf e f))"
    and "length w = getBytesPerControlChar e (Some (bomOf e f))"
    and "doesByteSequenceSuggestBinary e w (Some (bomOf e f))"
  shows "outcome (determineProcessingStatusOfFile e f) = Some Binary
       \<and> cursor (determineProcessingStatusOfFile e f)
           = getBytesPerBom e (Some (bomOf e f))
             + getBytesPerControlChar e (Some (bomOf e f)) * Suc (length us)"
proof -
  let ?v = "Some (bomOf e f)"
  let ?n = "getBytesPerControlChar e ?v"
  have "controlUnits ?n (payload e f) = us @ w # vs"
    using assms(3) by (simp add: unitsOf_def)
  with assms(2) have len: "\<forall>u\<in>set us. length u = ?n"
    and cat: "payload e f = concat us @ w @ concat vs"
    using controlUnits_prefix by blast+
  from len assms(4)
  have full: "\<forall>u\<in>set us. length u = ?n \<and> \<not> doesByteSequenceSuggestBinary e u ?v"
    by simp
  have "length (concat us) = ?n * length us"
    using len by (rule length_concat_units)
  then show ?thesis
    by (simp add: classify_binary_unit [OF assms(1) assms(2) cat full assms(5) assms(6)])
qed

theorem binary_unit_stops_scan_witness:
  "outcome (determineProcessingStatusOfFile specEncoder (fileOf [0x61, 0x00, 0x0D, 0x0A]))
     = Some Binary
   \<and> cursor (determineProcessingStatusOfFile specEncoder (fileOf [0x61, 0x00, 0x0D, 0x0A])) = 2"
proof -
  let ?f = "fileOf [0x61, 0x00, 0x0D, 0x0A]"
  have bf: "bomOf specEncoder ?f = NoBom"
    by code_simp
  have h1: "readable ?f"
    by simp
  have h2: "0 < getBytesPerControlChar specEncoder (Some (bomOf specEncoder ?f))"
    by (simp add: bf)
  have h3: "unitsOf specEncoder ?f = [[0x61]] @ [0x00] # [[0x0D], [0x0A]]"
    by code_simp
  have h4: "\<forall>u\<in>set [[0x61]].
      \<not> doesByteSequenceSuggestBinary specEncoder u (Some (bomOf specEncoder ?f))"
    by (simp add: bf)
  have h5: "length [0x00 :: byte] = getBytesPerControlChar specEncoder (Some (bomOf specEncoder ?f))"
    by (simp add: bf)
  have h6: "doesByteSequenceSuggestBinary specEncoder [0x00] (Some (bomOf specEncoder ?f))"
    by (simp add: bf)
  show ?thesis
    using binary_unit_stops_scan [OF h1 h2 h3 h4 h5 h6] by (simp add: bf)
qed

text \<open>
  C10, as stated: every file whose length after the BOM is not a multiple of the width is
  classified \<open>Error\<close>. The UTF-16 BE content below has three bytes after its BOM, but
  its first unit is the NUL that suggests binary content, and the scan stops there.
\<close>

theorem partial_unit_after_binary_counterexample:
  "length (payload specEncoder (fileOf [0xFE, 0xFF, 0x00, 0x00, 0x41]))
      mod getBytesPerControlChar specEncoder
            (Some (bomOf specEncoder (fileOf [0xFE, 0xFF, 0x00, 0x00, 0x41]))) \<noteq> 0
   \<and> outcome (determineProcessingStatusOfFile specEncoder
                 (fileOf [0xFE, 0xFF, 0x00, 0x00, 0x41])) = Some Binary"
  by code_simp

text \<open>
  C10, amended: a readable file whose length after the BOM is not a multiple of the width,
  and none of whose complete units suggests binary content, is classified \<open>Error\<close>:
  the short unit at the end of the file is an error.
\<close>

theorem partial_final_unit_is_error:
  assumes "readable f"
    and "0 < getBytesPerControlChar e (Some (bomOf e f))"
    and "length (payload e f) mod getBytesPerControlChar e (Some (bomOf e f)) \<noteq> 0"
    and "\<forall>u\<in>set (unitsOf e f).
           length u = getBytesPerControlChar e (Some (bomOf e f))
           \<longrightarrow> \<not> doesByteSequenceSuggestBinary e u (Some (bomOf e f))"
  shows "outcome (determineProcessingStatusOfFile e f) = Some Error"
proof -
  let ?v = "Some (bomOf e f)"
  let ?n = "getBytesPerControlChar e ?v"
  let ?us = "unitsOf e f"
  have "payload e f \<noteq> []"
    using assms(3) by auto
  then have "?us \<noteq> []"
    using assms(2) by (simp add: unitsOf_def controlUnits_nonempty)
  then obtain us t where split: "?us = us @ t # []"
    by (cases ?us rule: rev_cases) auto
  then have "controlUnits ?n (payload e f) = us @ t # []"
    by (simp add: unitsOf_def)
  with assms(2) have len: "\<forall>u\<in>set us. length u = ?n"
    and cat: "payload e f = concat us @ t @ concat []"
    using controlUnits_prefix by blast+
  have "t \<in> set (controlUnits ?n (payload e f))"
    using split by (simp add: unitsOf_def)
  with assms(2) have t: "t \<noteq> []" "length t \<le> ?n"
    using controlUnits_bounds by blast+
  have "length (payload e f) = ?n * length us + length t"
    using cat len by (simp add: length_concat_units)
  with assms(3) have "length t \<noteq> ?n"
    by auto
  with t(2) have short: "length t < ?n"
    by simp
  have full: "\<forall>u\<in>set us. length u = ?n \<and> \<not> doesByteSequenceSuggestBinary e u ?v"
    using len assms(4) split by simp
  have cat': "payload e f = concat us @ t"
    using cat by simp
  show ?thesis
    by (simp add: classify_partial_unit [OF assms(1) assms(2) cat' full t(1) short])
qed

theorem partial_final_unit_is_error_witness:
  "outcome (determineProcessingStatusOfFile specEncoder (fileOf [0xFF, 0xFE, 0x61, 0x00, 0x62]))
     = Some Error"
proof -
  let ?f = "fileOf [0xFF, 0xFE, 0x61, 0x00, 0x62]"
  have bf: "bomOf specEncoder ?f = UTF16LE"
    by code_simp
  have uf: "unitsOf specEncoder ?f = [[0x61, 0x00], [0x62]]"
    by code_simp
  have h1: "readable ?f"
    by simp
  have h2: "0 < getBytesPerControlChar specEncoder (Some (bomOf specEncoder ?f))"
    by (simp add: bf)
  have h3: "length (payload specEncoder ?f)
              mod getBytesPerControlChar specEncoder (Some (bomOf specEncoder ?f)) \<noteq> 0"
    by (simp add: bf payload_def)
  have h4: "\<forall>u\<in>set (unitsOf specEncoder ?f).
      length u = getBytesPerControlChar specEncoder (Some (bomOf specEncoder ?f))
      \<longrightarrow> \<not> doesByteSequenceSuggestBinary specEncoder u (Some (bomOf specEncoder ?f))"
    by (simp add: uf bf)
  show ?thesis
    by (rule partial_final_unit_is_error [OF h1 h2 h3 h4])
qed

section \<open>Rewriting\<close>

text \<open>
  C1. The rewrite of a content should be the content without the CRs that an LF follows.
  On the three bytes \<^verbatim>\<open>a CR LF\<close> the loop writes \<^verbatim>\<open>a\<close> when it meets the LF; that
  was the last unit, and the call of \<^verbatim>\<open>end\<close> sits in the branch that the LF did not
  take. The LF is never written and the stream is never ended: the file is left holding
  one byte, not two.
\<close>

theorem rewrite_loses_final_LF:
  "convertFileFromDosToUnix specEncoder (fileOf [0x61, 0x0D, 0x0A])
     = Rewritten \<lparr>written = [0x61], ended = False\<rparr>"
  by code_simp

text \<open>
  C9. Rewriting a file that is in the state \<open>Good\<close> should leave its content as it is.
  The two bytes \<^verbatim>\<open>a CR\<close> are classified \<open>Good\<close>; the loop of the rewriter ends on the
  CR without a call of \<^verbatim>\<open>write\<close> or \<^verbatim>\<open>end\<close>, and the file is left empty.
\<close>

theorem rewrite_of_good_file_with_trailing_CR:
  "outcome (determineProcessingStatusOfFile specEncoder (fileOf [0x61, 0x0D])) = Some Good
   \<and> convertFileFromDosToUnix specEncoder (fileOf [0x61, 0x0D])
      = Rewritten \<lparr>written = [], ended = False\<rparr>"
  by code_simp

text \<open>
  C6. The UTF-16 LE content \<^verbatim>\<open>FF FE\<close>, \<^verbatim>\<open>a CR LF b\<close> in units of two bytes, is
  classified \<open>Bad\<close>. The rewriter tests each unit for CR without passing the variant,
  so the two-byte CR is not recognised and all ten bytes are written back: the CR unit
  stays.
\<close>

theorem utf16le_rewrite_keeps_CR:
  "outcome (determineProcessingStatusOfFile specEncoder
      (fileOf [0xFF, 0xFE, 0x61, 0x00, 0x0D, 0x00, 0x0A, 0x00, 0x62, 0x00])) = Some Bad
   \<and> convertFileFromDosToUnix specEncoder
        (fileOf [0xFF, 0xFE, 0x61, 0x00, 0x0D, 0x00, 0x0A, 0x00, 0x62, 0x00])
      = Rewritten \<lparr>written = [0xFF, 0xFE, 0x61, 0x00, 0x0D, 0x00, 0x0A, 0x00, 0x62, 0x00],
                   ended = True\<rparr>"
  by code_simp

text \<open>
  C3, as stated: rewriting a file classified \<open>Bad\<close> and classifying it again gives
  \<open>Good\<close>. The rewrite removes a CR only when the next unit is an LF, in one pass:
  of \<^verbatim>\<open>CR CR LF x\<close> it leaves \<^verbatim>\<open>CR LF x\<close>, which is classified \<open>Bad\<close> again.
\<close>

theorem round_trip_counterexample:
  "outcome (determineProcessingStatusOfFile specEncoder (fileOf [0x0D, 0x0D, 0x0A, 0x78]))
     = Some Bad
   \<and> fileAfterRewrite specEncoder (fileOf [0x0D, 0x0D, 0x0A, 0x78])
     = Some (fileOf [0x0D, 0x0A, 0x78])
   \<and> reclassified specEncoder (fileOf [0x0D, 0x0D, 0x0A, 0x78]) = Some Bad"
  by code_simp

text \<open>
  C3, amended: a file without BOM or with the UTF-8 BOM that is classified \<open>Bad\<close>, whose
  last unit is neither a CR nor an LF that follows a CR, and in which no CR is followed by
  a CR and then an LF, is classified \<open>Good\<close> after the rewrite.
\<close>

theorem round_trip_of_bad_file:
  assumes "outcome (determineProcessingStatusOfFile specEncoder f) = Some Bad"
    and "bomOf specEncoder f = NoBom \<or> bomOf specEncoder f = UTF8"
    and "endsOrdinary (unitIsCR specEncoder (Some (bomOf specEncoder f)))
           (unitIsLF specEncoder (Some (bomOf specEncoder f))) (unitsOf specEncoder f)"
    and "\<not> hasCRCRLF (unitIsCR specEncoder (Some (bomOf specEncoder f)))
           (unitIsLF specEncoder (Some (bomOf specEncoder f))) (unitsOf specEncoder f)"
  shows "reclassified specEncoder f = Some Good"
proof -
  let ?v = "Some (bomOf specEncoder f)"
  let ?n = "getBytesPerControlChar specEncoder ?v"
  let ?us = "unitsOf specEncoder f"
  define f' where "f' = f\<lparr>content :=
      take (getBytesPerBom specEncoder ?v) (content f)
      @ concat (dropCRs (unitIsCR specEncoder ?v) (unitIsLF specEncoder ?v) ?us)\<rparr>"
  have n: "?n = Suc 0" and single: "\<forall>u\<in>set ?us. length u = Suc 0"
    and cat: "payload specEncoder f = concat ?us"
    using assms(2) by (rule spec_single_byte_units)+
  have pos: "0 < ?n"
    using n by simp
  have r: "readable f"
  proof (rule ccontr)
    assume "\<not> readable f"
    then have "outcome (determineProcessingStatusOfFile specEncoder f) = Some Error"
      by (simp add: classify_unreadable)
    with assms(1) show False by simp
  qed
  have nonbinary: "\<forall>u\<in>set ?us. \<not> doesByteSequenceSuggestBinary specEncoder u ?v"
  proof (rule ccontr)
    assume "\<not> (\<forall>u\<in>set ?us. \<not> doesByteSequenceSuggestBinary specEncoder u ?v)"
    then have "\<exists>u\<in>set ?us. doesByteSequenceSuggestBinary specEncoder u ?v"
      by blast
    then obtain ys w zs where split: "?us = ys @ w # zs"
      and w: "doesByteSequenceSuggestBinary specEncoder w ?v"
      and ys: "\<forall>y\<in>set ys. \<not> doesByteSequenceSuggestBinary specEncoder y ?v"
      using split_list_first_prop [of ?us "\<lambda>u. doesByteSequenceSuggestBinary specEncoder u ?v"]
      by blast
    have cat': "payload specEncoder f = concat ys @ w @ concat zs"
      using cat split by simp
    have full: "\<forall>u\<in>set ys. length u = ?n
                  \<and> \<not> doesByteSequenceSuggestBinary specEncoder u ?v"
      using single ys split n by simp
    have lw: "length w = ?n"
      using single split n by simp
    have "outcome (determineProcessingStatusOfFile specEncoder f) = Some Binary"
      by (simp add: classify_binary_unit [OF r pos cat' full lw w])
    with assms(1) show False by simp
  qed
  have full: "\<forall>u\<in>set ?us. length u = ?n
                \<and> \<not> doesByteSequenceSuggestBinary specEncoder u ?v"
    using single nonbinary n by simp
  have agree: "\<forall>u. isByteSequenceCR specEncoder u None = isByteSequenceCR specEncoder u ?v"
    using assms(2) by auto
  have excl: "\<forall>u. \<not> (isByteSequenceCR specEncoder u ?v \<and> isByteSequenceLF specEncoder u ?v)"
    using assms(2) by auto
  have stable: "bomOf specEncoder f' = bomOf specEncoder f"
    using assms(2) f'_def by (rule spec_bom_stable)
  have "fileAfterRewrite specEncoder f = Some f'
      \<and> outcome (determineProcessingStatusOfFile specEncoder f') = Some Good"
    by (rule reclassified_good [OF r pos cat full assms(3) agree excl assms(4) f'_def stable])
  then show ?thesis
    by (simp add: reclassified_def)
qed

theorem round_trip_of_bad_file_witness:
  "reclassified specEncoder (fileOf [0x61, 0x0D, 0x0A, 0x62]) = Some Good"
proof -
  let ?f = "fileOf [0x61, 0x0D, 0x0A, 0x62]"
  have h1: "outcome (determineProcessingStatusOfFile specEncoder ?f) = Some Bad"
    by code_simp
  have bf: "bomOf specEncoder ?f = NoBom"
    by code_simp
  then have h2: "bomOf specEncoder ?f = NoBom \<or> bomOf specEncoder ?f = UTF8"
    by simp
  have h3: "endsOrdinary (unitIsCR specEncoder (Some (bomOf specEncoder ?f)))
      (unitIsLF specEncoder (Some (bomOf specEncoder ?f))) (unitsOf specEncoder ?f)"
    by code_simp
  have h4: "\<not> hasCRCRLF (unitIsCR specEncoder (Some (bomOf specEncoder ?f)))
      (unitIsLF specEncoder (Some (bomOf specEncoder ?f))) (unitsOf specEncoder ?f)"
    by code_simp
  show ?thesis
    by (rule round_trip_of_bad_file [OF h1 h2 h3 h4])
qed

section \<open>Events\<close>

lemma filterStage_Undefined: "fst (filterStage Undefined infos []) = []"
  by (cases infos) (simp_all add: filterCallback_def emit_def)

text \<open>
  C7. A run of the event-emitting variant should emit one event for each file and then
  \<^verbatim>\<open>end\<close>. For every encoding module and every list of files, the call of
  \<^verbatim>\<open>process\<close> raises a ReferenceError and no event at all is emitted.
\<close>

theorem process_emits_nothing:
  "emitted (process e fileList) = [] \<and> raised (process e fileList) = Some ReferenceError"
  by (simp add: process_def filterStage_Undefined split: option.split)

end
